theory Spec2Isabelle
  imports Main "HOL-Library.Multiset" "HOL-Library.Finite_Map"
begin

section \<open>JavaScript values that may be absent\<close>

text \<open>
  Most slots of the program hold a value, \<open>null\<close> or \<open>undefined\<close>
  (\<open>T | null | undefined\<close>), and the code tells the three apart:
  accessors answer \<open>undefined\<close> on an empty stack, \<open>leave\<close> resets a slot
  to \<open>null\<close>. An object is truthy, \<open>null\<close> and \<open>undefined\<close> are falsy.
\<close>

datatype 'a nullable = Undefined | Null | Val 'a

text \<open>\<open>x ? x : undefined\<close> guarded by a predicate that is false on \<open>null\<close>
  and \<open>undefined\<close>: \<open>p(x) ? x : undefined\<close>.\<close>

definition keep_if :: "('a \<Rightarrow> bool) \<Rightarrow> 'a nullable \<Rightarrow> 'a nullable" where
  "keep_if p x = (case x of Val t \<Rightarrow> (if p t then Val t else Undefined) | _ \<Rightarrow> Undefined)"

text \<open>\<open>if (x) { return f(x) }\<close>: \<open>undefined\<close> for a falsy argument.\<close>

definition if_truthy :: "('a \<Rightarrow> 'b) \<Rightarrow> 'a nullable \<Rightarrow> 'b nullable" where
  "if_truthy f x = (case x of Val t \<Rightarrow> Val (f t) | _ \<Rightarrow> Undefined)"

text \<open>The nullish coalescing operator \<open>a ?? b\<close>.\<close>

definition nullish_or :: "'a nullable \<Rightarrow> 'a nullable \<Rightarrow> 'a nullable" where
  "nullish_or a b = (case a of Val t \<Rightarrow> Val t | _ \<Rightarrow> b)"


section \<open>The AST (language/ast)\<close>

text \<open>
  One datatype per node type of \<open>ast.ts\<close>; a union of node types is a datatype with one
  constructor per member. The optional \<open>loc\<close> of every node is left out: none of the
  functions below reads it. An optional array (\<open>arguments?\<close>, \<open>directives?\<close>,
  \<open>variableDefinitions?\<close>) is a list, the absent array being the empty one.
\<close>

datatype name_node = Name (name_value: string)

datatype named_type_node = NamedType (named_type_name: name_node)

datatype type_node =
    NamedTypeT named_type_node
  | ListType type_node
  | NonNullType type_node

datatype variable_node = Variable (variable_name: name_node)

datatype value_node =
    VariableV variable_node
  | IntValue string
  | FloatValue string
  | StringValue string bool
  | BooleanValue bool
  | NullValue
  | EnumValue (enum_value: string)
  | ListValue (list_values: "value_node list")
  | ObjectValue (object_fields: "object_field_node list")
and object_field_node =
    ObjectField (object_field_name: name_node) (object_field_value: value_node)

datatype argument_node =
  Argument (argument_name: name_node) (argument_value: value_node)

datatype directive_node =
  Directive (directive_name: name_node) (directive_arguments: "argument_node list")

datatype variable_definition_node =
  VariableDefinition
    (vd_variable: variable_node)
    (vd_type: type_node)
    (vd_defaultValue: "value_node option")
    (vd_directives: "directive_node list")

datatype fragment_spread_node =
  FragmentSpread (spread_name: name_node) (spread_directives: "directive_node list")

datatype field_node =
    Field
      (field_alias: "name_node option")
      (field_name: name_node)
      (field_arguments: "argument_node list")
      (field_directives: "directive_node list")
      (field_selectionSet: "selection_set_node option")
and inline_fragment_node =
    InlineFragment
      (inline_typeCondition: "named_type_node option")
      (inline_directives: "directive_node list")
      (inline_selectionSet: selection_set_node)
and selection_node =
    FieldS field_node
  | FragmentSpreadS fragment_spread_node
  | InlineFragmentS inline_fragment_node
and selection_set_node =
    SelectionSet (selections: "selection_node list")

datatype operation_type_node = query | mutation | subscription

datatype operation_definition_node =
  OperationDefinition
    (op_operation: operation_type_node)
    (op_name: "name_node option")
    (op_variableDefinitions: "variable_definition_node list")
    (op_directives: "directive_node list")
    (op_selectionSet: selection_set_node)

datatype fragment_definition_node =
  FragmentDefinition
    (frag_name: name_node)
    (frag_variableDefinitions: "variable_definition_node list")
    (frag_typeCondition: named_type_node)
    (frag_directives: "directive_node list")
    (frag_selectionSet: selection_set_node)

text \<open>
  The type-system definitions and extensions. The functions below read their \<open>kind\<close> and
  their \<open>name\<close> only, so the other fields (description, directives, fields, ...) are left
  out. Schema definitions and schema extensions have no name.
\<close>

datatype definition_node =
    OperationDefinitionD operation_definition_node
  | FragmentDefinitionD fragment_definition_node
  | SchemaDefinition
  | ScalarTypeDefinition name_node
  | ObjectTypeDefinition name_node
  | InterfaceTypeDefinition name_node
  | UnionTypeDefinition name_node
  | EnumTypeDefinition name_node
  | InputObjectTypeDefinition name_node
  | DirectiveDefinition name_node
  | SchemaExtension
  | ScalarTypeExtension name_node
  | ObjectTypeExtension name_node
  | InterfaceTypeExtension name_node
  | UnionTypeExtension name_node
  | EnumTypeExtension name_node
  | InputObjectTypeExtension name_node

datatype document_node = Document (definitions: "definition_node list")

text \<open>The node types that occur only inside type-system definitions.\<close>

datatype type_system_part_node =
    OperationTypeDefinition operation_type_node named_type_node
  | FieldDefinition name_node
  | InputValueDefinition name_node
  | EnumValueDefinition name_node

text \<open>\<open>ASTNode\<close>, the union of all node types.\<close>

datatype ast_node =
    NameN name_node
  | DocumentN document_node
  | DefinitionN definition_node
  | VariableDefinitionN variable_definition_node
  | SelectionSetN selection_set_node
  | SelectionN selection_node
  | ArgumentN argument_node
  | ValueN value_node
  | ObjectFieldN object_field_node
  | DirectiveN directive_node
  | TypeN type_node
  | TypeSystemPartN type_system_part_node

text \<open>The \<open>kind\<close> field, named as the members of \<open>Kind\<close> (\<open>Kind.INT\<close> is
  \<open>INT_KIND\<close> here, \<open>INT\<close> being taken).\<close>

datatype kind =
    NAME | DOCUMENT | OPERATION_DEFINITION | VARIABLE_DEFINITION | VARIABLE
  | SELECTION_SET | FIELD | ARGUMENT | FRAGMENT_SPREAD | INLINE_FRAGMENT
  | FRAGMENT_DEFINITION | INT_KIND | FLOAT | STRING | BOOLEAN | NULL | ENUM | LIST
  | OBJECT | OBJECT_FIELD | DIRECTIVE | NAMED_TYPE | LIST_TYPE | NON_NULL_TYPE
  | SCHEMA_DEFINITION | OPERATION_TYPE_DEFINITION | SCALAR_TYPE_DEFINITION
  | OBJECT_TYPE_DEFINITION | FIELD_DEFINITION | INPUT_VALUE_DEFINITION
  | INTERFACE_TYPE_DEFINITION | UNION_TYPE_DEFINITION | ENUM_TYPE_DEFINITION
  | ENUM_VALUE_DEFINITION | INPUT_OBJECT_TYPE_DEFINITION | DIRECTIVE_DEFINITION
  | SCHEMA_EXTENSION | SCALAR_TYPE_EXTENSION | OBJECT_TYPE_EXTENSION
  | INTERFACE_TYPE_EXTENSION | UNION_TYPE_EXTENSION | ENUM_TYPE_EXTENSION
  | INPUT_OBJECT_TYPE_EXTENSION

fun definition_kind :: "definition_node \<Rightarrow> kind" where
  "definition_kind (OperationDefinitionD _) = OPERATION_DEFINITION"
| "definition_kind (FragmentDefinitionD _) = FRAGMENT_DEFINITION"
| "definition_kind SchemaDefinition = SCHEMA_DEFINITION"
| "definition_kind (ScalarTypeDefinition _) = SCALAR_TYPE_DEFINITION"
| "definition_kind (ObjectTypeDefinition _) = OBJECT_TYPE_DEFINITION"
| "definition_kind (InterfaceTypeDefinition _) = INTERFACE_TYPE_DEFINITION"
| "definition_kind (UnionTypeDefinition _) = UNION_TYPE_DEFINITION"
| "definition_kind (EnumTypeDefinition _) = ENUM_TYPE_DEFINITION"
| "definition_kind (InputObjectTypeDefinition _) = INPUT_OBJECT_TYPE_DEFINITION"
| "definition_kind (DirectiveDefinition _) = DIRECTIVE_DEFINITION"
| "definition_kind SchemaExtension = SCHEMA_EXTENSION"
| "definition_kind (ScalarTypeExtension _) = SCALAR_TYPE_EXTENSION"
| "definition_kind (ObjectTypeExtension _) = OBJECT_TYPE_EXTENSION"
| "definition_kind (InterfaceTypeExtension _) = INTERFACE_TYPE_EXTENSION"
| "definition_kind (UnionTypeExtension _) = UNION_TYPE_EXTENSION"
| "definition_kind (EnumTypeExtension _) = ENUM_TYPE_EXTENSION"
| "definition_kind (InputObjectTypeExtension _) = INPUT_OBJECT_TYPE_EXTENSION"

fun value_kind :: "value_node \<Rightarrow> kind" where
  "value_kind (VariableV _) = VARIABLE"
| "value_kind (IntValue _) = INT_KIND"
| "value_kind (FloatValue _) = FLOAT"
| "value_kind (StringValue _ _) = STRING"
| "value_kind (BooleanValue _) = BOOLEAN"
| "value_kind NullValue = NULL"
| "value_kind (EnumValue _) = ENUM"
| "value_kind (ListValue _) = LIST"
| "value_kind (ObjectValue _) = OBJECT"

fun selection_kind :: "selection_node \<Rightarrow> kind" where
  "selection_kind (FieldS _) = FIELD"
| "selection_kind (FragmentSpreadS _) = FRAGMENT_SPREAD"
| "selection_kind (InlineFragmentS _) = INLINE_FRAGMENT"

fun type_kind :: "type_node \<Rightarrow> kind" where
  "type_kind (NamedTypeT _) = NAMED_TYPE"
| "type_kind (ListType _) = LIST_TYPE"
| "type_kind (NonNullType _) = NON_NULL_TYPE"

fun type_system_part_kind :: "type_system_part_node \<Rightarrow> kind" where
  "type_system_part_kind (OperationTypeDefinition _ _) = OPERATION_TYPE_DEFINITION"
| "type_system_part_kind (FieldDefinition _) = FIELD_DEFINITION"
| "type_system_part_kind (InputValueDefinition _) = INPUT_VALUE_DEFINITION"
| "type_system_part_kind (EnumValueDefinition _) = ENUM_VALUE_DEFINITION"

fun node_kind :: "ast_node \<Rightarrow> kind" where
  "node_kind (NameN _) = NAME"
| "node_kind (DocumentN _) = DOCUMENT"
| "node_kind (DefinitionN d) = definition_kind d"
| "node_kind (VariableDefinitionN _) = VARIABLE_DEFINITION"
| "node_kind (SelectionSetN _) = SELECTION_SET"
| "node_kind (SelectionN s) = selection_kind s"
| "node_kind (ArgumentN _) = ARGUMENT"
| "node_kind (ValueN v) = value_kind v"
| "node_kind (ObjectFieldN _) = OBJECT_FIELD"
| "node_kind (DirectiveN _) = DIRECTIVE"
| "node_kind (TypeN t) = type_kind t"
| "node_kind (TypeSystemPartN p) = type_system_part_kind p"


text \<open>
  What a visitor function may return: \<open>undefined\<close> (no action), \<open>false\<close> (skip the
  subtree), the \<open>BREAK\<close> object (stop), \<open>null\<close> (delete the node), or a node (replace it).
\<close>

datatype visit_result =
  ResUndefined | ResFalse | ResBreak | ResNull | ResNode (result_node: ast_node)

text \<open>\<open>isNode\<close>: the value is not nullish and its \<open>kind\<close> is a string.\<close>

definition isNode :: "visit_result \<Rightarrow> bool" where
  "isNode maybeNode = (case maybeNode of ResNode _ \<Rightarrow> True | _ \<Rightarrow> False)"


section \<open>The schema as TypeInfo consults it\<close>

text \<open>
  The classes of \<open>type/definition\<close>, \<open>type/directives\<close> and \<open>type/schema\<close> are
  not among the sources. \<open>TypeInfo\<close> reads the fields below of them and nothing
  else, so a schema type is a value of a type variable \<open>'ty\<close> (equality on it standing for
  object identity), a default value one of \<open>'v\<close>, an enum value definition one of
  \<open>'ev\<close>, and every imported helper is a field of the record \<open>schema_env\<close>: the
  theorems hold whatever these helpers compute.
\<close>

record ('ty, 'v) GraphQLArgument =
  arg_name :: string
  arg_type :: 'ty
  arg_defaultValue :: "'v nullable"

record ('ty, 'v) GraphQLField =
  fld_name :: string
  fld_type :: 'ty
  fld_args :: "('ty, 'v) GraphQLArgument list"

record ('ty, 'v) GraphQLDirective =
  dir_name :: string
  dir_args :: "('ty, 'v) GraphQLArgument list"

record ('ty, 'v) GraphQLInputField =
  inp_name :: string
  inp_type :: 'ty
  inp_defaultValue :: "'v nullable"

record ('ty, 'v, 'ev) schema_env =
  getQueryType :: "'ty nullable"
  getMutationType :: "'ty nullable"
  getSubscriptionType :: "'ty nullable"
  getDirective :: "string \<Rightarrow> ('ty, 'v) GraphQLDirective nullable"
  typeFromAST :: "type_node \<Rightarrow> 'ty nullable"
  isObjectType :: "'ty \<Rightarrow> bool"
  isInterfaceType :: "'ty \<Rightarrow> bool"
  isEnumType :: "'ty \<Rightarrow> bool"
  isInputObjectType :: "'ty \<Rightarrow> bool"
  isListType :: "'ty \<Rightarrow> bool"
  isCompositeType :: "'ty \<Rightarrow> bool"
  isInputType :: "'ty \<Rightarrow> bool"
  isOutputType :: "'ty \<Rightarrow> bool"
  getNullableType :: "'ty \<Rightarrow> 'ty"
  getNamedType :: "'ty \<Rightarrow> 'ty"
  ofType :: "'ty \<Rightarrow> 'ty"
  getFields :: "'ty \<Rightarrow> string \<Rightarrow> ('ty, 'v) GraphQLField nullable"
  getInputFields :: "'ty \<Rightarrow> string \<Rightarrow> ('ty, 'v) GraphQLInputField nullable"
  getValue :: "'ty \<Rightarrow> string \<Rightarrow> 'ev nullable"
  SchemaMetaFieldDef :: "('ty, 'v) GraphQLField"
  TypeMetaFieldDef :: "('ty, 'v) GraphQLField"
  TypeNameMetaFieldDef :: "('ty, 'v) GraphQLField"

text \<open>
  The type predicates are \<open>instanceof\<close> tests: false on \<open>null\<close> and \<open>undefined\<close> (hence
  \<open>keep_if\<close>); \<open>getNamedType\<close> and \<open>getNullableType\<close> answer \<open>undefined\<close> for a
  falsy argument (hence \<open>if_truthy\<close>).
\<close>


section \<open>TypeInfo (utilities/TypeInfo)\<close>

text \<open>
  The five stacks are JavaScript arrays: \<open>push\<close> appends at the end, \<open>pop\<close> removes
  the last element (and does nothing to an empty array), the top is the last element.
\<close>

record ('ty, 'v, 'ev) TypeInfo =
  schema :: "('ty, 'v, 'ev) schema_env"
  typeStack :: "'ty nullable list"
  parentTypeStack :: "'ty nullable list"
  inputTypeStack :: "'ty nullable list"
  fieldDefStack :: "('ty, 'v) GraphQLField nullable list"
  defaultValueStack :: "'v nullable list"
  directive :: "('ty, 'v) GraphQLDirective nullable"
  argument :: "('ty, 'v) GraphQLArgument nullable"
  enumValue :: "'ev nullable"
  getFieldDefFn :: "('ty, 'v, 'ev) schema_env \<Rightarrow> 'ty \<Rightarrow> field_node
                     \<Rightarrow> ('ty, 'v) GraphQLField nullable"

definition push :: "'a list \<Rightarrow> 'a \<Rightarrow> 'a list" where
  "push xs x = xs @ [x]"

definition pop :: "'a list \<Rightarrow> 'a list" where
  "pop xs = butlast xs"

text \<open>The default \<open>getFieldDef\<close> of the module.\<close>

definition getFieldDef ::
  "('ty, 'v, 'ev) schema_env \<Rightarrow> 'ty \<Rightarrow> field_node \<Rightarrow> ('ty, 'v) GraphQLField nullable"
where
  "getFieldDef sch parentType fieldNode =
    (let name = name_value (field_name fieldNode) in
     if name = fld_name (SchemaMetaFieldDef sch) \<and> getQueryType sch = Val parentType
       then Val (SchemaMetaFieldDef sch)
     else if name = fld_name (TypeMetaFieldDef sch) \<and> getQueryType sch = Val parentType
       then Val (TypeMetaFieldDef sch)
     else if name = fld_name (TypeNameMetaFieldDef sch) \<and> isCompositeType sch parentType
       then Val (TypeNameMetaFieldDef sch)
     else if isObjectType sch parentType \<or> isInterfaceType sch parentType
       then getFields sch parentType name
     else Undefined)"

text \<open>The constructor: \<open>new TypeInfo(schema, getFieldDefFn, initialType)\<close>.\<close>

definition new_TypeInfo ::
  "('ty, 'v, 'ev) schema_env
   \<Rightarrow> (('ty, 'v, 'ev) schema_env \<Rightarrow> 'ty \<Rightarrow> field_node \<Rightarrow> ('ty, 'v) GraphQLField nullable) option
   \<Rightarrow> 'ty option \<Rightarrow> ('ty, 'v, 'ev) TypeInfo"
where
  "new_TypeInfo sch getFieldDefFn' initialType =
    \<lparr> schema = sch,
      typeStack =
        (case initialType of Some t \<Rightarrow> (if isOutputType sch t then [Val t] else []) | None \<Rightarrow> []),
      parentTypeStack =
        (case initialType of Some t \<Rightarrow> (if isCompositeType sch t then [Val t] else []) | None \<Rightarrow> []),
      inputTypeStack =
        (case initialType of Some t \<Rightarrow> (if isInputType sch t then [Val t] else []) | None \<Rightarrow> []),
      fieldDefStack = [],
      defaultValueStack = [],
      directive = Null,
      argument = Null,
      enumValue = Null,
      getFieldDefFn = (case getFieldDefFn' of Some f \<Rightarrow> f | None \<Rightarrow> getFieldDef) \<rparr>"

subsection \<open>The accessors\<close>

text \<open>The methods \<open>getFieldDef\<close> and \<open>getDirective\<close> of the class are
  \<open>TypeInfo_getFieldDef\<close> and \<open>TypeInfo_getDirective\<close> here: the module's function and
  the schema's method have the plain names.\<close>

definition getType :: "('ty, 'v, 'ev) TypeInfo \<Rightarrow> 'ty nullable" where
  "getType ti =
    (if length (typeStack ti) > 0 then typeStack ti ! (length (typeStack ti) - 1)
     else Undefined)"

definition getParentType :: "('ty, 'v, 'ev) TypeInfo \<Rightarrow> 'ty nullable" where
  "getParentType ti =
    (if length (parentTypeStack ti) > 0
     then parentTypeStack ti ! (length (parentTypeStack ti) - 1)
     else Undefined)"

definition getInputType :: "('ty, 'v, 'ev) TypeInfo \<Rightarrow> 'ty nullable" where
  "getInputType ti =
    (if length (inputTypeStack ti) > 0
     then inputTypeStack ti ! (length (inputTypeStack ti) - 1)
     else Undefined)"

definition getParentInputType :: "('ty, 'v, 'ev) TypeInfo \<Rightarrow> 'ty nullable" where
  "getParentInputType ti =
    (if length (inputTypeStack ti) > 1
     then inputTypeStack ti ! (length (inputTypeStack ti) - 2)
     else Undefined)"

definition TypeInfo_getFieldDef :: "('ty, 'v, 'ev) TypeInfo \<Rightarrow> ('ty, 'v) GraphQLField nullable" where
  "TypeInfo_getFieldDef ti =
    (if length (fieldDefStack ti) > 0
     then fieldDefStack ti ! (length (fieldDefStack ti) - 1)
     else Undefined)"

definition getDefaultValue :: "('ty, 'v, 'ev) TypeInfo \<Rightarrow> 'v nullable" where
  "getDefaultValue ti =
    (if length (defaultValueStack ti) > 0
     then defaultValueStack ti ! (length (defaultValueStack ti) - 1)
     else Undefined)"

definition TypeInfo_getDirective :: "('ty, 'v, 'ev) TypeInfo \<Rightarrow> ('ty, 'v) GraphQLDirective nullable" where
  "TypeInfo_getDirective ti = directive ti"

definition getArgument :: "('ty, 'v, 'ev) TypeInfo \<Rightarrow> ('ty, 'v) GraphQLArgument nullable" where
  "getArgument ti = argument ti"

definition getEnumValue :: "('ty, 'v, 'ev) TypeInfo \<Rightarrow> 'ev nullable" where
  "getEnumValue ti = enumValue ti"


subsection \<open>enter and leave\<close>

text \<open>\<open>fieldOrDirective.args.find((arg) => arg.name === name)\<close>.\<close>

definition find_arg ::
  "('ty, 'v) GraphQLArgument list \<Rightarrow> string \<Rightarrow> ('ty, 'v) GraphQLArgument nullable" where
  "find_arg args name =
    (case find (\<lambda>arg. arg_name arg = name) args of Some a \<Rightarrow> Val a | None \<Rightarrow> Undefined)"

definition enter_SelectionSet :: "('ty, 'v, 'ev) TypeInfo \<Rightarrow> ('ty, 'v, 'ev) TypeInfo" where
  "enter_SelectionSet ti =
    (let namedType = if_truthy (getNamedType (schema ti)) (getType ti) in
     ti\<lparr>parentTypeStack :=
          push (parentTypeStack ti) (keep_if (isCompositeType (schema ti)) namedType)\<rparr>)"

definition enter_Field ::
  "('ty, 'v, 'ev) TypeInfo \<Rightarrow> field_node \<Rightarrow> ('ty, 'v, 'ev) TypeInfo" where
  "enter_Field ti node =
    (let parentType = getParentType ti;
         fieldDef = (case parentType of
                       Val pt \<Rightarrow> getFieldDefFn ti (schema ti) pt node
                     | _ \<Rightarrow> Undefined);
         fieldType = (case fieldDef of Val fd \<Rightarrow> Val (fld_type fd) | _ \<Rightarrow> Undefined)
     in ti\<lparr>fieldDefStack := push (fieldDefStack ti) fieldDef,
            typeStack := push (typeStack ti) (keep_if (isOutputType (schema ti)) fieldType)\<rparr>)"

definition enter_OperationDefinition ::
  "('ty, 'v, 'ev) TypeInfo \<Rightarrow> operation_definition_node \<Rightarrow> ('ty, 'v, 'ev) TypeInfo" where
  "enter_OperationDefinition ti node =
    (let type = (case op_operation node of
                   query \<Rightarrow> getQueryType (schema ti)
                 | mutation \<Rightarrow> getMutationType (schema ti)
                 | subscription \<Rightarrow> getSubscriptionType (schema ti))
     in ti\<lparr>typeStack := push (typeStack ti) (keep_if (isObjectType (schema ti)) type)\<rparr>)"

text \<open>\<open>InlineFragment\<close> and \<open>FragmentDefinition\<close> share one case; they differ in
  whether \<open>typeCondition\<close> may be absent.\<close>

definition enter_typeCondition ::
  "('ty, 'v, 'ev) TypeInfo \<Rightarrow> named_type_node option \<Rightarrow> ('ty, 'v, 'ev) TypeInfo" where
  "enter_typeCondition ti typeConditionAST =
    (let outputType = (case typeConditionAST of
                         Some tc \<Rightarrow> typeFromAST (schema ti) (NamedTypeT tc)
                       | None \<Rightarrow> if_truthy (getNamedType (schema ti)) (getType ti))
     in ti\<lparr>typeStack := push (typeStack ti) (keep_if (isOutputType (schema ti)) outputType)\<rparr>)"

definition enter_VariableDefinition ::
  "('ty, 'v, 'ev) TypeInfo \<Rightarrow> variable_definition_node \<Rightarrow> ('ty, 'v, 'ev) TypeInfo" where
  "enter_VariableDefinition ti node =
    (let inputType = typeFromAST (schema ti) (vd_type node)
     in ti\<lparr>inputTypeStack :=
            push (inputTypeStack ti) (keep_if (isInputType (schema ti)) inputType)\<rparr>)"

definition enter_Argument ::
  "('ty, 'v, 'ev) TypeInfo \<Rightarrow> argument_node \<Rightarrow> ('ty, 'v, 'ev) TypeInfo" where
  "enter_Argument ti node =
    (let args = (case TypeInfo_getDirective ti of
                   Val d \<Rightarrow> Some (dir_args d)
                 | _ \<Rightarrow> (case TypeInfo_getFieldDef ti of
                          Val f \<Rightarrow> Some (fld_args f)
                        | _ \<Rightarrow> None));
         argDef = (case args of
                     Some as \<Rightarrow> find_arg as (name_value (argument_name node))
                   | None \<Rightarrow> Undefined);
         argType = (case argDef of Val a \<Rightarrow> Val (arg_type a) | _ \<Rightarrow> Undefined)
     in ti\<lparr>argument := argDef,
            defaultValueStack :=
              push (defaultValueStack ti)
                (case argDef of Val a \<Rightarrow> arg_defaultValue a | _ \<Rightarrow> Undefined),
            inputTypeStack :=
              push (inputTypeStack ti) (keep_if (isInputType (schema ti)) argType)\<rparr>)"

definition enter_List :: "('ty, 'v, 'ev) TypeInfo \<Rightarrow> ('ty, 'v, 'ev) TypeInfo" where
  "enter_List ti =
    (let listType = if_truthy (getNullableType (schema ti)) (getInputType ti);
         itemType = (case listType of
                       Val lt \<Rightarrow> (if isListType (schema ti) lt then Val (ofType (schema ti) lt)
                                  else listType)
                     | _ \<Rightarrow> listType)
     in ti\<lparr>defaultValueStack := push (defaultValueStack ti) Undefined,
            inputTypeStack :=
              push (inputTypeStack ti) (keep_if (isInputType (schema ti)) itemType)\<rparr>)"

definition enter_ObjectField ::
  "('ty, 'v, 'ev) TypeInfo \<Rightarrow> object_field_node \<Rightarrow> ('ty, 'v, 'ev) TypeInfo" where
  "enter_ObjectField ti node =
    (let objectType = if_truthy (getNamedType (schema ti)) (getInputType ti);
         inputField = (case objectType of
                         Val ot \<Rightarrow> (if isInputObjectType (schema ti) ot
                                    then getInputFields (schema ti) ot
                                           (name_value (object_field_name node))
                                    else Undefined)
                       | _ \<Rightarrow> Undefined);
         inputFieldType = (case inputField of Val f \<Rightarrow> Val (inp_type f) | _ \<Rightarrow> Undefined)
     in ti\<lparr>defaultValueStack :=
              push (defaultValueStack ti)
                (case inputField of Val f \<Rightarrow> inp_defaultValue f | _ \<Rightarrow> Undefined),
            inputTypeStack :=
              push (inputTypeStack ti) (keep_if (isInputType (schema ti)) inputFieldType)\<rparr>)"

definition enter_Enum :: "('ty, 'v, 'ev) TypeInfo \<Rightarrow> string \<Rightarrow> ('ty, 'v, 'ev) TypeInfo" where
  "enter_Enum ti node_value =
    (let enumType = if_truthy (getNamedType (schema ti)) (getInputType ti);
         enumValue' = (case enumType of
                         Val et \<Rightarrow> (if isEnumType (schema ti) et
                                    then getValue (schema ti) et node_value
                                    else Undefined)
                       | _ \<Rightarrow> Undefined)
     in ti\<lparr>enumValue := enumValue'\<rparr>)"

text \<open>\<open>enter(node)\<close>: the \<open>switch (node.kind)\<close>, one case per kind, no default.\<close>

definition enter :: "('ty, 'v, 'ev) TypeInfo \<Rightarrow> ast_node \<Rightarrow> ('ty, 'v, 'ev) TypeInfo" where
  "enter ti node =
    (case node of
       SelectionSetN _ \<Rightarrow> enter_SelectionSet ti
     | SelectionN (FieldS f) \<Rightarrow> enter_Field ti f
     | DirectiveN d \<Rightarrow>
         ti\<lparr>directive := getDirective (schema ti) (name_value (directive_name d))\<rparr>
     | DefinitionN (OperationDefinitionD od) \<Rightarrow> enter_OperationDefinition ti od
     | SelectionN (InlineFragmentS i) \<Rightarrow> enter_typeCondition ti (inline_typeCondition i)
     | DefinitionN (FragmentDefinitionD fd) \<Rightarrow>
         enter_typeCondition ti (Some (frag_typeCondition fd))
     | VariableDefinitionN vd \<Rightarrow> enter_VariableDefinition ti vd
     | ArgumentN a \<Rightarrow> enter_Argument ti a
     | ValueN (ListValue _) \<Rightarrow> enter_List ti
     | ObjectFieldN f \<Rightarrow> enter_ObjectField ti f
     | ValueN (EnumValue v) \<Rightarrow> enter_Enum ti v
     | _ \<Rightarrow> ti)"

text \<open>\<open>leave(node)\<close>.\<close>

definition leave :: "('ty, 'v, 'ev) TypeInfo \<Rightarrow> ast_node \<Rightarrow> ('ty, 'v, 'ev) TypeInfo" where
  "leave ti node =
    (case node_kind node of
       SELECTION_SET \<Rightarrow> ti\<lparr>parentTypeStack := pop (parentTypeStack ti)\<rparr>
     | FIELD \<Rightarrow> ti\<lparr>fieldDefStack := pop (fieldDefStack ti), typeStack := pop (typeStack ti)\<rparr>
     | DIRECTIVE \<Rightarrow> ti\<lparr>directive := Null\<rparr>
     | OPERATION_DEFINITION \<Rightarrow> ti\<lparr>typeStack := pop (typeStack ti)\<rparr>
     | INLINE_FRAGMENT \<Rightarrow> ti\<lparr>typeStack := pop (typeStack ti)\<rparr>
     | FRAGMENT_DEFINITION \<Rightarrow> ti\<lparr>typeStack := pop (typeStack ti)\<rparr>
     | VARIABLE_DEFINITION \<Rightarrow> ti\<lparr>inputTypeStack := pop (inputTypeStack ti)\<rparr>
     | ARGUMENT \<Rightarrow> ti\<lparr>argument := Null,
                       defaultValueStack := pop (defaultValueStack ti),
                       inputTypeStack := pop (inputTypeStack ti)\<rparr>
     | LIST \<Rightarrow> ti\<lparr>defaultValueStack := pop (defaultValueStack ti),
                   inputTypeStack := pop (inputTypeStack ti)\<rparr>
     | OBJECT_FIELD \<Rightarrow> ti\<lparr>defaultValueStack := pop (defaultValueStack ti),
                           inputTypeStack := pop (inputTypeStack ti)\<rparr>
     | ENUM \<Rightarrow> ti\<lparr>enumValue := Null\<rparr>
     | _ \<Rightarrow> ti)"

subsection \<open>The stacks a node kind works on\<close>

text \<open>The table of the specification: which of the five stacks \<open>enter\<close> pushes on and
  \<open>leave\<close> pops from, for each node kind.\<close>

datatype stack_id =
  TYPE_STACK | PARENT_TYPE_STACK | INPUT_TYPE_STACK | FIELD_DEF_STACK | DEFAULT_VALUE_STACK

fun stack_len :: "stack_id \<Rightarrow> ('ty, 'v, 'ev) TypeInfo \<Rightarrow> nat" where
  "stack_len TYPE_STACK ti = length (typeStack ti)"
| "stack_len PARENT_TYPE_STACK ti = length (parentTypeStack ti)"
| "stack_len INPUT_TYPE_STACK ti = length (inputTypeStack ti)"
| "stack_len FIELD_DEF_STACK ti = length (fieldDefStack ti)"
| "stack_len DEFAULT_VALUE_STACK ti = length (defaultValueStack ti)"

definition stacks_of_kind :: "kind \<Rightarrow> stack_id set" where
  "stacks_of_kind k =
    (if k = SELECTION_SET then {PARENT_TYPE_STACK}
     else if k = FIELD then {FIELD_DEF_STACK, TYPE_STACK}
     else if k \<in> {OPERATION_DEFINITION, INLINE_FRAGMENT, FRAGMENT_DEFINITION} then {TYPE_STACK}
     else if k = VARIABLE_DEFINITION then {INPUT_TYPE_STACK}
     else if k \<in> {ARGUMENT, LIST, OBJECT_FIELD} then {DEFAULT_VALUE_STACK, INPUT_TYPE_STACK}
     else {})"

text \<open>The kinds \<open>enter\<close> and \<open>leave\<close> have a case for.\<close>

definition effect_kinds :: "kind set" where
  "effect_kinds = {SELECTION_SET, FIELD, DIRECTIVE, OPERATION_DEFINITION, INLINE_FRAGMENT,
     FRAGMENT_DEFINITION, VARIABLE_DEFINITION, ARGUMENT, LIST, OBJECT_FIELD, ENUM}"


subsection \<open>visitWithTypeInfo\<close>

text \<open>
  A visitor function is called with \<open>(node, key, parent, path, ancestors)\<close>; \<open>'x\<close> stands
  for the four arguments after the node, which the wrapper hands on untouched
  (\<open>fn.apply(visitor, arguments)\<close>). The function may read and change the TypeInfo it shares
  with the wrapper and its own state \<open>'u\<close>, and returns a \<open>visit_result\<close>.

  \<open>getVisitFn(visitor, kind, isLeaving)\<close> belongs to \<open>language/visitor\<close>, which is not
  among the sources; a visitor is represented by what \<open>getVisitFn\<close> finds in it: for a kind
  and a direction, a function or nothing.
\<close>

type_synonym ('ty, 'v, 'ev, 'u, 'x) visit_fn =
  "ast_node \<Rightarrow> 'x \<Rightarrow> ('ty, 'v, 'ev) TypeInfo \<Rightarrow> 'u
     \<Rightarrow> visit_result \<times> ('ty, 'v, 'ev) TypeInfo \<times> 'u"

type_synonym ('ty, 'v, 'ev, 'u, 'x) visitor =
  "kind \<Rightarrow> bool \<Rightarrow> ('ty, 'v, 'ev, 'u, 'x) visit_fn option"

text \<open>The \<open>enter\<close> function of the visitor that \<open>visitWithTypeInfo(typeInfo, visitor)\<close>
  returns.\<close>

definition visitWithTypeInfo_enter ::
  "('ty, 'v, 'ev, 'u, 'x) visitor \<Rightarrow> ('ty, 'v, 'ev, 'u, 'x) visit_fn" where
  "visitWithTypeInfo_enter visitor node args typeInfo u =
    (let ti1 = enter typeInfo node in
     case visitor (node_kind node) False of
       Some fn \<Rightarrow>
         (case fn node args ti1 u of (result, ti2, u') \<Rightarrow>
            if result \<noteq> ResUndefined then
              (let ti3 = leave ti2 node in
               if isNode result then (result, enter ti3 (result_node result), u')
               else (result, ti3, u'))
            else (result, ti2, u'))
     | None \<Rightarrow> (ResUndefined, ti1, u))"

text \<open>Its \<open>leave\<close> function.\<close>

definition visitWithTypeInfo_leave ::
  "('ty, 'v, 'ev, 'u, 'x) visitor \<Rightarrow> ('ty, 'v, 'ev, 'u, 'x) visit_fn" where
  "visitWithTypeInfo_leave visitor node args typeInfo u =
    (case visitor (node_kind node) True of
       Some fn \<Rightarrow>
         (case fn node args typeInfo u of (result, ti1, u') \<Rightarrow> (result, leave ti1 node, u'))
     | None \<Rightarrow> (ResUndefined, leave typeInfo node, u))"

text \<open>A schema and a visitor to run the definitions on: one object type \<open>Q\<close> (the query
  root) with a field \<open>f(a: S)\<close> of the scalar type \<open>S\<close>, and a visitor whose \<open>Field\<close> function
  returns \<open>false\<close> on entering.\<close>

datatype demo_type = DemoQ | DemoS

definition demo_schema :: "(demo_type, unit, unit) schema_env" where
  "demo_schema =
    \<lparr> getQueryType = Val DemoQ,
      getMutationType = Undefined,
      getSubscriptionType = Undefined,
      getDirective = (\<lambda>_. Undefined),
      typeFromAST = (\<lambda>t. case t of
          NamedTypeT (NamedType (Name n)) \<Rightarrow>
            (if n = ''Q'' then Val DemoQ else if n = ''S'' then Val DemoS else Undefined)
        | _ \<Rightarrow> Undefined),
      isObjectType = (\<lambda>t. t = DemoQ),
      isInterfaceType = (\<lambda>_. False),
      isEnumType = (\<lambda>_. False),
      isInputObjectType = (\<lambda>_. False),
      isListType = (\<lambda>_. False),
      isCompositeType = (\<lambda>t. t = DemoQ),
      isInputType = (\<lambda>t. t = DemoS),
      isOutputType = (\<lambda>_. True),
      getNullableType = (\<lambda>t. t),
      getNamedType = (\<lambda>t. t),
      ofType = (\<lambda>t. t),
      getFields = (\<lambda>t n. if t = DemoQ \<and> n = ''f''
          then Val \<lparr>fld_name = ''f'', fld_type = DemoS,
                 fld_args = [\<lparr>arg_name = ''a'', arg_type = DemoS,
                               arg_defaultValue = Undefined\<rparr>]\<rparr>
          else Undefined),
      getInputFields = (\<lambda>_ _. Undefined),
      getValue = (\<lambda>_ _. Undefined),
      SchemaMetaFieldDef = \<lparr>fld_name = ''__schema'', fld_type = DemoQ, fld_args = []\<rparr>,
      TypeMetaFieldDef = \<lparr>fld_name = ''__type'', fld_type = DemoQ, fld_args = []\<rparr>,
      TypeNameMetaFieldDef = \<lparr>fld_name = ''__typename'', fld_type = DemoS, fld_args = []\<rparr> \<rparr>"

definition demo_field :: ast_node where
  "demo_field = SelectionN (FieldS (Field None (Name ''f'') [] [] None))"

definition demo_visitor :: "(demo_type, unit, unit, nat, unit) visitor" where
  "demo_visitor k isLeaving =
    (if k = FIELD \<and> \<not> isLeaving then Some (\<lambda>node args ti u. (ResFalse, ti, Suc u))
     else if k = FIELD \<and> isLeaving then Some (\<lambda>node args ti u. (ResUndefined, ti, Suc u))
     else None)"

text \<open>A visitor that replaces every field it enters by the field \<open>f\<close>, and a field
  \<open>g\<close> that the demonstration schema does not know.\<close>

definition demo_unknown_field :: ast_node where
  "demo_unknown_field = SelectionN (FieldS (Field None (Name ''g'') [] [] None))"

definition demo_replacing_visitor :: "(demo_type, unit, unit, nat, unit) visitor" where
  "demo_replacing_visitor k isLeaving =
    (if k = FIELD \<and> \<not> isLeaving then Some (\<lambda>node args ti u. (ResNode demo_field, ti, Suc u))
     else None)"


section \<open>The validation context (validation/ValidationContext)\<close>

text \<open>\<open>new GraphQLError(message, nodes)\<close>, with the one node the rules below pass.\<close>

datatype GraphQLError = GraphQLError (message: string) (nodes: ast_node)

text \<open>
  The class \<open>ASTValidationContext\<close>. \<open>_onError\<close> is a callback of the caller; the field
  \<open>reported\<close> holds the errors it has been called with, in order. \<open>_fragments\<close> is an
  object without prototype used as a finite map from names to definitions, \<open>undefined\<close>
  until the first lookup. The two \<open>Map\<close>s are keyed by node; nodes are values here, so two
  nodes of the same shape share a key (what is cached for a key depends on its shape alone).
\<close>

record ASTValidationContext =
  ast :: document_node
  reported :: "GraphQLError list"
  fragments :: "(string, fragment_definition_node) fmap option"
  fragmentSpreads :: "selection_set_node \<rightharpoonup> fragment_spread_node list"
  recursivelyReferencedFragments ::
    "operation_definition_node \<rightharpoonup> fragment_definition_node list"

definition new_ASTValidationContext :: "document_node \<Rightarrow> ASTValidationContext" where
  "new_ASTValidationContext doc =
    \<lparr> ast = doc, reported = [], fragments = None, fragmentSpreads = Map.empty,
      recursivelyReferencedFragments = Map.empty \<rparr>"

definition reportError ::
  "GraphQLError \<Rightarrow> 'a ASTValidationContext_scheme \<Rightarrow> 'a ASTValidationContext_scheme" where
  "reportError error ctx = ctx\<lparr>reported := reported ctx @ [error]\<rparr>"

definition getDocument :: "'a ASTValidationContext_scheme \<Rightarrow> document_node" where
  "getDocument ctx = ast ctx"

subsection \<open>getFragment\<close>

text \<open>The function given to \<open>reduce\<close>: a later fragment definition replaces an earlier one
  of the same name.\<close>

definition add_fragment ::
  "definition_node \<Rightarrow> (string, fragment_definition_node) fmap
     \<Rightarrow> (string, fragment_definition_node) fmap" where
  "add_fragment statement frags =
    (case statement of
       FragmentDefinitionD fd \<Rightarrow> fmupd (name_value (frag_name fd)) fd frags
     | _ \<Rightarrow> frags)"

definition fragments_of :: "document_node \<Rightarrow> (string, fragment_definition_node) fmap" where
  "fragments_of doc = fold add_fragment (definitions doc) fmempty"

definition getFragment ::
  "'a ASTValidationContext_scheme \<Rightarrow> string
     \<Rightarrow> fragment_definition_node option \<times> 'a ASTValidationContext_scheme" where
  "getFragment ctx name =
    (case fragments ctx of
       Some frags \<Rightarrow> (fmlookup frags name, ctx)
     | None \<Rightarrow>
        (let frags = fragments_of (getDocument ctx)
         in (fmlookup frags name, ctx\<lparr>fragments := Some frags\<rparr>)))"

subsection \<open>getFragmentSpreads\<close>

text \<open>The body of the \<open>for\<close> loop over the selections of one set: a spread is appended to
  \<open>spreads\<close>, the selection set of a field or inline fragment is pushed on
  \<open>setsToVisit\<close>.\<close>

fun for_selection ::
  "selection_node \<Rightarrow> fragment_spread_node list \<times> selection_set_node list
     \<Rightarrow> fragment_spread_node list \<times> selection_set_node list" where
  "for_selection (FragmentSpreadS sp) (spreads, setsToVisit) = (push spreads sp, setsToVisit)"
| "for_selection (FieldS f) (spreads, setsToVisit) =
     (case field_selectionSet f of
        Some ss \<Rightarrow> (spreads, push setsToVisit ss)
      | None \<Rightarrow> (spreads, setsToVisit))"
| "for_selection (InlineFragmentS i) (spreads, setsToVisit) =
     (spreads, push setsToVisit (inline_selectionSet i))"

text \<open>What one selection contributes to the two arrays.\<close>

definition nested_set :: "selection_node \<Rightarrow> selection_set_node list" where
  "nested_set s =
    (case s of
       FragmentSpreadS _ \<Rightarrow> []
     | FieldS f \<Rightarrow> (case field_selectionSet f of Some ss \<Rightarrow> [ss] | None \<Rightarrow> [])
     | InlineFragmentS i \<Rightarrow> [inline_selectionSet i])"

definition direct_spread :: "selection_node \<Rightarrow> fragment_spread_node list" where
  "direct_spread s = (case s of FragmentSpreadS sp \<Rightarrow> [sp] | _ \<Rightarrow> [])"

lemma for_selection_eq:
  "for_selection s (spreads, sets) = (spreads @ direct_spread s, sets @ nested_set s)"
  by (cases s) (auto simp: push_def direct_spread_def nested_set_def split: option.splits)

lemma fold_for_selection:
  "fold for_selection sels (spreads, sets) =
     (spreads @ concat (map direct_spread sels), sets @ concat (map nested_set sels))"
  by (induction sels arbitrary: spreads sets) (simp_all add: for_selection_eq)

lemma size_nested_set: "sum_list (map size (nested_set s)) \<le> size s"
proof (cases s)
  case (FieldS f)
  then show ?thesis by (cases f) (auto simp: nested_set_def split: option.splits)
next
  case (FragmentSpreadS sp)
  then show ?thesis by (simp add: nested_set_def)
next
  case (InlineFragmentS i)
  then show ?thesis by (cases i) (simp add: nested_set_def)
qed

lemma size_nested_sets:
  "sum_list (map size (concat (map nested_set sels))) \<le> size_list size sels"
proof (induction sels)
  case Nil
  then show ?case by simp
next
  case (Cons s sels)
  then show ?case using size_nested_set [of s] by simp
qed

text \<open>The \<open>while (setsToVisit.length !== 0)\<close> loop. It ends because the sets pushed are
  parts of the set popped.\<close>

function spreads_while ::
  "selection_set_node list \<Rightarrow> fragment_spread_node list \<Rightarrow> fragment_spread_node list" where
  "spreads_while setsToVisit spreads =
    (if length setsToVisit \<noteq> 0 then
       (let set = last setsToVisit;
            (spreads', setsToVisit') =
               fold for_selection (selections set) (spreads, pop setsToVisit)
        in spreads_while setsToVisit' spreads')
     else spreads)"
  by pat_completeness auto
termination
proof (relation "measure (\<lambda>(setsToVisit, spreads). sum_list (map size setsToVisit))")
  show "wf (measure (\<lambda>(setsToVisit, spreads). sum_list (map size setsToVisit)))" by simp
next
  fix setsToVisit :: "selection_set_node list" and spreads :: "fragment_spread_node list"
    and set x spreads' setsToVisit'
  assume ne: "length setsToVisit \<noteq> 0" and set: "set = last setsToVisit"
    and x: "x = fold for_selection (selections set) (spreads, pop setsToVisit)"
    and xs: "(spreads', setsToVisit') = x"
  from ne obtain rest where st: "setsToVisit = rest @ [set]"
    using set by (cases setsToVisit rule: rev_cases) auto
  have "setsToVisit' = rest @ concat (map nested_set (selections set))"
    using x xs st by (simp add: fold_for_selection pop_def)
  moreover have "sum_list (map size (concat (map nested_set (selections set)))) < size set"
    using size_nested_sets [of "selections set"] by (cases set) simp
  ultimately show "((setsToVisit', spreads'), (setsToVisit, spreads))
        \<in> measure (\<lambda>(setsToVisit, spreads). sum_list (map size setsToVisit))"
    using st by simp
qed

declare spreads_while.simps [simp del]

definition getFragmentSpreads ::
  "'a ASTValidationContext_scheme \<Rightarrow> selection_set_node
     \<Rightarrow> fragment_spread_node list \<times> 'a ASTValidationContext_scheme" where
  "getFragmentSpreads ctx node =
    (case fragmentSpreads ctx node of
       Some spreads \<Rightarrow> (spreads, ctx)
     | None \<Rightarrow>
        (let spreads = spreads_while [node] []
         in (spreads, ctx\<lparr>fragmentSpreads := (fragmentSpreads ctx)(node \<mapsto> spreads)\<rparr>)))"

text \<open>
  The fragment spreads nested anywhere under a selection set, in the depth-first order of
  the selection tree that the specification names: the selections of a set from first to
  last, all that is under one selection before the next. A spread is not followed into the
  fragment it names.
\<close>

fun spreads_in_selection :: "selection_node \<Rightarrow> fragment_spread_node list"
  and spreads_in_set :: "selection_set_node \<Rightarrow> fragment_spread_node list" where
  "spreads_in_selection (FragmentSpreadS sp) = [sp]"
| "spreads_in_selection (FieldS (Field al nm args dirs None)) = []"
| "spreads_in_selection (FieldS (Field al nm args dirs (Some ss))) = spreads_in_set ss"
| "spreads_in_selection (InlineFragmentS (InlineFragment tc dirs ss)) = spreads_in_set ss"
| "spreads_in_set (SelectionSet sels) = concat (map spreads_in_selection sels)"

text \<open>
  The order the loop produces: the spreads that are selections of the set itself, in the order
  of the selections, then what the nested sets give, the last nested set first.
\<close>

fun stack_order_sel :: "selection_node \<Rightarrow> fragment_spread_node list"
  and stack_order :: "selection_set_node \<Rightarrow> fragment_spread_node list" where
  "stack_order_sel (FragmentSpreadS sp) = []"
| "stack_order_sel (FieldS (Field al nm args dirs None)) = []"
| "stack_order_sel (FieldS (Field al nm args dirs (Some ss))) = stack_order ss"
| "stack_order_sel (InlineFragmentS (InlineFragment tc dirs ss)) = stack_order ss"
| "stack_order (SelectionSet sels) =
     concat (map direct_spread sels) @ concat (map stack_order_sel (rev sels))"

text \<open>A cache of \<open>getFragmentSpreads\<close> holds what the loop computes for each key.\<close>

definition fragmentSpreads_ok :: "'a ASTValidationContext_scheme \<Rightarrow> bool" where
  "fragmentSpreads_ok ctx =
    (\<forall>node spreads. fragmentSpreads ctx node = Some spreads
        \<longrightarrow> spreads = spreads_while [node] [])"


section \<open>Two validation rules\<close>

text \<open>What a rule can fail with: reading a property of \<open>undefined\<close>.\<close>

datatype js_error = TypeError

text \<open>The double quote inside the messages.\<close>

definition dquote :: char where
  "dquote = CHR 0x22"

subsection \<open>ExecutableDefinitionsRule\<close>

text \<open>Modelled from the spec: \<open>isExecutableDefinitionNode\<close> of \<open>language/predicates\<close>,
  which is not among the sources. The executable definitions are the operation and the
  fragment definitions.\<close>

definition isExecutableDefinitionNode :: "definition_node \<Rightarrow> bool" where
  "isExecutableDefinitionNode node =
    (definition_kind node = OPERATION_DEFINITION \<or> definition_kind node = FRAGMENT_DEFINITION)"

text \<open>The property \<open>name\<close> of a definition: absent from schema definitions and extensions
  and from anonymous operations.\<close>

fun definition_name :: "definition_node \<Rightarrow> name_node nullable" where
  "definition_name (OperationDefinitionD od) =
     (case op_name od of Some n \<Rightarrow> Val n | None \<Rightarrow> Undefined)"
| "definition_name (FragmentDefinitionD fd) = Val (frag_name fd)"
| "definition_name SchemaDefinition = Undefined"
| "definition_name (ScalarTypeDefinition n) = Val n"
| "definition_name (ObjectTypeDefinition n) = Val n"
| "definition_name (InterfaceTypeDefinition n) = Val n"
| "definition_name (UnionTypeDefinition n) = Val n"
| "definition_name (EnumTypeDefinition n) = Val n"
| "definition_name (InputObjectTypeDefinition n) = Val n"
| "definition_name (DirectiveDefinition n) = Val n"
| "definition_name SchemaExtension = Undefined"
| "definition_name (ScalarTypeExtension n) = Val n"
| "definition_name (ObjectTypeExtension n) = Val n"
| "definition_name (InterfaceTypeExtension n) = Val n"
| "definition_name (UnionTypeExtension n) = Val n"
| "definition_name (EnumTypeExtension n) = Val n"
| "definition_name (InputObjectTypeExtension n) = Val n"

text \<open>\<open>defName\<close>: \<open>'schema'\<close> for the two schema kinds, else
  \<open>'"' + definition.name.value + '"'\<close>, which throws when there is no name.\<close>

definition defName :: "definition_node \<Rightarrow> js_error + string" where
  "defName definition =
    (if definition_kind definition = SCHEMA_DEFINITION
        \<or> definition_kind definition = SCHEMA_EXTENSION
     then Inr ''schema''
     else (case definition_name definition of
             Val n \<Rightarrow> Inr ([dquote] @ name_value n @ [dquote])
           | _ \<Rightarrow> Inl TypeError))"

text \<open>The loop \<open>for (const definition of node.definitions)\<close>.\<close>

fun for_definitions ::
  "definition_node list \<Rightarrow> 'a ASTValidationContext_scheme
     \<Rightarrow> js_error + 'a ASTValidationContext_scheme" where
  "for_definitions [] context = Inr context"
| "for_definitions (definition # rest) context =
     (if \<not> isExecutableDefinitionNode definition then
        (case defName definition of
           Inl e \<Rightarrow> Inl e
         | Inr name \<Rightarrow>
             for_definitions rest
               (reportError
                  (GraphQLError (''The '' @ name @ '' definition is not executable.'')
                     (DefinitionN definition))
                  context))
      else for_definitions rest context)"

text \<open>The \<open>Document\<close> function of the rule's visitor; it returns \<open>false\<close>, so nothing below
  the document is visited.\<close>

definition ExecutableDefinitionsRule_Document ::
  "document_node \<Rightarrow> 'a ASTValidationContext_scheme
     \<Rightarrow> js_error + (visit_result \<times> 'a ASTValidationContext_scheme)" where
  "ExecutableDefinitionsRule_Document node context =
    (case for_definitions (definitions node) context of
       Inl e \<Rightarrow> Inl e
     | Inr context' \<Rightarrow> Inr (ResFalse, context'))"

text \<open>The error the specification asks for, for one definition that is not executable: it
  names the definition, \<open>schema\<close> for a schema definition or extension, the quoted name for
  the others.\<close>

fun shown_name :: "definition_node \<Rightarrow> string" where
  "shown_name SchemaDefinition = ''schema''"
| "shown_name SchemaExtension = ''schema''"
| "shown_name d = (case definition_name d of
                     Val n \<Rightarrow> [dquote] @ name_value n @ [dquote]
                   | _ \<Rightarrow> [])"

definition not_executable_error :: "definition_node \<Rightarrow> GraphQLError" where
  "not_executable_error d =
    GraphQLError (''The '' @ shown_name d @ '' definition is not executable.'') (DefinitionN d)"

subsection \<open>The full context and VariablesAreInputTypesRule\<close>

record ('ty, 'v) VariableUsage =
  usage_node :: variable_node
  usage_type :: "'ty nullable"
  usage_defaultValue :: "'v nullable"

text \<open>\<open>NodeWithSelectionSet\<close>.\<close>

datatype node_with_selection_set =
    OperationNS operation_definition_node
  | FragmentNS fragment_definition_node

text \<open>The class \<open>ValidationContext\<close>, which extends \<open>ASTValidationContext\<close>.\<close>

record ('ty, 'v, 'ev) ValidationContext = ASTValidationContext +
  ctx_schema :: "('ty, 'v, 'ev) schema_env"
  ctx_typeInfo :: "('ty, 'v, 'ev) TypeInfo"
  variableUsages :: "node_with_selection_set \<rightharpoonup> ('ty, 'v) VariableUsage list"
  recursiveVariableUsages :: "operation_definition_node \<rightharpoonup> ('ty, 'v) VariableUsage list"

definition new_ValidationContext ::
  "('ty, 'v, 'ev) schema_env \<Rightarrow> document_node \<Rightarrow> ('ty, 'v, 'ev) TypeInfo
     \<Rightarrow> ('ty, 'v, 'ev) ValidationContext" where
  "new_ValidationContext sch doc ti =
    \<lparr> ast = doc, reported = [], fragments = None, fragmentSpreads = Map.empty,
      recursivelyReferencedFragments = Map.empty,
      ctx_schema = sch, ctx_typeInfo = ti, variableUsages = Map.empty,
      recursiveVariableUsages = Map.empty \<rparr>"

definition getSchema :: "('ty, 'v, 'ev) ValidationContext \<Rightarrow> ('ty, 'v, 'ev) schema_env" where
  "getSchema ctx = ctx_schema ctx"

text \<open>
  The \<open>VariableDefinition\<close> function of the rule's visitor. \<open>print\<close> belongs to
  \<open>language/printer\<close>, which is not among the sources: it is a parameter.
\<close>

definition non_input_message :: "string \<Rightarrow> string \<Rightarrow> string" where
  "non_input_message variableName typeName =
    ''Variable '' @ [dquote] @ ''$'' @ variableName @ [dquote]
      @ '' cannot be non-input type '' @ [dquote] @ typeName @ [dquote] @ ''.''"

definition VariablesAreInputTypesRule_VariableDefinition ::
  "(ast_node \<Rightarrow> string) \<Rightarrow> variable_definition_node \<Rightarrow> ('ty, 'v, 'ev) ValidationContext
     \<Rightarrow> visit_result \<times> ('ty, 'v, 'ev) ValidationContext" where
  "VariablesAreInputTypesRule_VariableDefinition print node context =
    (let type = typeFromAST (getSchema context) (vd_type node) in
     case type of
       Val t \<Rightarrow>
         (if \<not> isInputType (getSchema context) t then
            (let variableName = name_value (variable_name (vd_variable node));
                 typeName = print (TypeN (vd_type node))
             in (ResUndefined,
                 reportError
                   (GraphQLError (non_input_message variableName typeName)
                      (TypeN (vd_type node)))
                   context))
          else (ResUndefined, context))
     | _ \<Rightarrow> (ResUndefined, context))"

text \<open>A printer of type references to run the rule with: the name, \<open>[T]\<close>, \<open>T!\<close>.\<close>

fun demo_print_type :: "type_node \<Rightarrow> string" where
  "demo_print_type (NamedTypeT (NamedType (Name n))) = n"
| "demo_print_type (ListType t) = ''['' @ demo_print_type t @ '']''"
| "demo_print_type (NonNullType t) = demo_print_type t @ ''!''"

definition demo_print :: "ast_node \<Rightarrow> string" where
  "demo_print node = (case node of TypeN t \<Rightarrow> demo_print_type t | _ \<Rightarrow> [])"

text \<open>\<open>$x: Q\<close>, a variable of the object type \<open>Q\<close>, and \<open>$y: S\<close>, one of the
  scalar type \<open>S\<close>.\<close>

definition demo_variable_x :: variable_definition_node where
  "demo_variable_x =
    VariableDefinition (Variable (Name ''x'')) (NamedTypeT (NamedType (Name ''Q''))) None []"

definition demo_variable_y :: variable_definition_node where
  "demo_variable_y =
    VariableDefinition (Variable (Name ''y'')) (NamedTypeT (NamedType (Name ''S''))) None []"


subsection \<open>getRecursivelyReferencedFragments\<close>

text \<open>
  The state of the two loops: the context (its caches change on the way), the array
  \<open>fragments\<close>, the object \<open>collectedNames\<close> (used as a set of names) and the array
  \<open>nodesToVisit\<close>.
\<close>

type_synonym 'a rrf_state =
  "'a ASTValidationContext_scheme \<times> fragment_definition_node list \<times> string set
     \<times> selection_set_node list"

text \<open>The body of \<open>for (const spread of this.getFragmentSpreads(node))\<close>.\<close>

definition for_spread :: "fragment_spread_node \<Rightarrow> 'a rrf_state \<Rightarrow> 'a rrf_state" where
  "for_spread spread st =
    (case st of (ctx, fragments', collectedNames, nodesToVisit) \<Rightarrow>
       (let fragName = name_value (spread_name spread) in
        if fragName \<notin> collectedNames then
          (case getFragment ctx fragName of
             (Some fragment, ctx') \<Rightarrow>
               (ctx', push fragments' fragment, insert fragName collectedNames,
                push nodesToVisit (frag_selectionSet fragment))
           | (None, ctx') \<Rightarrow> (ctx', fragments', insert fragName collectedNames, nodesToVisit))
        else st))"

text \<open>The fragment table a context works with: the cached one, or the one the first lookup
  will build.\<close>

definition fragment_table ::
  "'a ASTValidationContext_scheme \<Rightarrow> (string, fragment_definition_node) fmap" where
  "fragment_table ctx =
    (case fragments ctx of Some frags \<Rightarrow> frags | None \<Rightarrow> fragments_of (getDocument ctx))"

text \<open>What bounds the loop: the names of the table not collected yet, and the sets waiting
  to be visited.\<close>

definition rrf_measure :: "'a rrf_state \<Rightarrow> nat" where
  "rrf_measure st =
    (case st of (ctx, fragments', collectedNames, nodesToVisit) \<Rightarrow>
       2 * card (fmdom' (fragment_table ctx) - collectedNames) + length nodesToVisit)"

lemma getFragment_table:
  "fragment_table (snd (getFragment ctx name)) = fragment_table ctx"
  "fst (getFragment ctx name) = fmlookup (fragment_table ctx) name"
  by (auto simp: getFragment_def fragment_table_def getDocument_def Let_def split: option.splits)

lemma getFragmentSpreads_table:
  "fragment_table (snd (getFragmentSpreads ctx node)) = fragment_table ctx"
  by (auto simp: getFragmentSpreads_def fragment_table_def getDocument_def Let_def split: option.splits)

lemma for_spread_measure:
  "rrf_measure (for_spread spread st) \<le> rrf_measure st"
proof -
  obtain ctx fr col stack where st: "st = (ctx, fr, col, stack)" by (cases st)
  let ?n = "name_value (spread_name spread)"
  show ?thesis
  proof (cases "?n \<in> col")
    case True
    then show ?thesis by (simp add: for_spread_def st)
  next
    case False
    obtain r ctx' where g: "getFragment ctx ?n = (r, ctx')" by (cases "getFragment ctx ?n")
    have t: "fragment_table ctx' = fragment_table ctx" and r: "r = fmlookup (fragment_table ctx) ?n"
      using getFragment_table [of ctx ?n] g by simp_all
    have fin: "finite (fmdom' (fragment_table ctx) - col)" by simp
    show ?thesis
    proof (cases r)
      case None
      have "fmdom' (fragment_table ctx) - insert ?n col \<subseteq> fmdom' (fragment_table ctx) - col"
        by auto
      then have "card (fmdom' (fragment_table ctx) - insert ?n col) \<le> card (fmdom' (fragment_table ctx) - col)"
        using fin card_mono by blast
      then show ?thesis using False g None t by (simp add: for_spread_def st rrf_measure_def)
    next
      case (Some f)
      then have "?n \<in> fmdom' (fragment_table ctx) - col"
        using r False by (auto simp: fmdom'I)
      then have "card (fmdom' (fragment_table ctx) - insert ?n col) < card (fmdom' (fragment_table ctx) - col)"
        using fin by (metis Diff_insert card_Diff1_less)
      then show ?thesis using False g Some t by (simp add: for_spread_def st rrf_measure_def push_def)
    qed
  qed
qed

lemma fold_for_spread_measure:
  "rrf_measure (fold for_spread spreads st) \<le> rrf_measure st"
proof (induction spreads arbitrary: st)
  case Nil
  then show ?case by simp
next
  case (Cons a spreads)
  then show ?case using for_spread_measure [of a st] le_trans by fastforce
qed

function rrf_while :: "'a rrf_state \<Rightarrow> 'a rrf_state" where
  "rrf_while (ctx, fragments', collectedNames, nodesToVisit) =
    (if length nodesToVisit \<noteq> 0 then
       (let node = last nodesToVisit;
            (spreads, ctx') = getFragmentSpreads ctx node
        in rrf_while
             (fold for_spread spreads (ctx', fragments', collectedNames, pop nodesToVisit)))
     else (ctx, fragments', collectedNames, nodesToVisit))"
  by pat_completeness auto
termination
proof (relation "measure rrf_measure")
  show "wf (measure rrf_measure)" by simp
next
  fix ctx :: "'a ASTValidationContext_scheme" and fragments' collectedNames
    and nodesToVisit :: "selection_set_node list" and node x spreads ctx'
  assume ne: "length nodesToVisit \<noteq> 0" and "node = last nodesToVisit"
    and x: "x = getFragmentSpreads ctx node" and xs: "(spreads, ctx') = x"
  have t: "fragment_table ctx' = fragment_table ctx"
    using getFragmentSpreads_table [of ctx node] x xs by (metis snd_conv)
  have "rrf_measure (fold for_spread spreads (ctx', fragments', collectedNames, pop nodesToVisit))
        \<le> rrf_measure (ctx', fragments', collectedNames, pop nodesToVisit)"
    by (rule fold_for_spread_measure)
  also have "\<dots> < rrf_measure (ctx, fragments', collectedNames, nodesToVisit)"
    using ne t by (simp add: rrf_measure_def pop_def)
  finally show "(fold for_spread spreads (ctx', fragments', collectedNames, pop nodesToVisit),
          (ctx, fragments', collectedNames, nodesToVisit)) \<in> measure rrf_measure"
    by simp
qed

declare rrf_while.simps [simp del]

definition getRecursivelyReferencedFragments ::
  "'a ASTValidationContext_scheme \<Rightarrow> operation_definition_node
     \<Rightarrow> fragment_definition_node list \<times> 'a ASTValidationContext_scheme" where
  "getRecursivelyReferencedFragments ctx operation =
    (case recursivelyReferencedFragments ctx operation of
       Some fragments' \<Rightarrow> (fragments', ctx)
     | None \<Rightarrow>
        (case rrf_while (ctx, [], {}, [op_selectionSet operation]) of
           (ctx', fragments', collectedNames, nodesToVisit) \<Rightarrow>
             (fragments',
              ctx'\<lparr>recursivelyReferencedFragments :=
                     (recursivelyReferencedFragments ctx')(operation \<mapsto> fragments')\<rparr>)))"

text \<open>
  The fragments an operation reaches, read off the document alone. A spread refers to a
  fragment by name; a name stands for the fragment definition of the document that bears it,
  the last one if several do. The names reached are those spread under the operation's
  selection set and, for each name reached that stands for a definition, those spread under
  the selection set of that definition.
\<close>

definition fragment_definition_of :: "definition_node \<Rightarrow> fragment_definition_node list" where
  "fragment_definition_of d = (case d of FragmentDefinitionD fd \<Rightarrow> [fd] | _ \<Rightarrow> [])"

definition fragment_definitions :: "document_node \<Rightarrow> fragment_definition_node list" where
  "fragment_definitions doc = concat (map fragment_definition_of (definitions doc))"

definition fragment_named :: "document_node \<Rightarrow> string \<Rightarrow> fragment_definition_node option" where
  "fragment_named doc n =
     find (\<lambda>fd. name_value (frag_name fd) = n) (rev (fragment_definitions doc))"

definition spread_names :: "selection_set_node \<Rightarrow> string set" where
  "spread_names ss = (\<lambda>sp. name_value (spread_name sp)) ` set (spreads_in_set ss)"

inductive_set reachable_names ::
  "(string \<Rightarrow> fragment_definition_node option) \<Rightarrow> selection_set_node \<Rightarrow> string set"
  for resolve :: "string \<Rightarrow> fragment_definition_node option" and root :: selection_set_node
where
  direct: "n \<in> spread_names root \<Longrightarrow> n \<in> reachable_names resolve root"
| via: "n \<in> reachable_names resolve root \<Longrightarrow> resolve n = Some f \<Longrightarrow>
        m \<in> spread_names (frag_selectionSet f) \<Longrightarrow> m \<in> reachable_names resolve root"

definition reachable_fragments ::
  "document_node \<Rightarrow> operation_definition_node \<Rightarrow> fragment_definition_node set" where
  "reachable_fragments doc operation =
    {f. \<exists>n \<in> reachable_names (fragment_named doc) (op_selectionSet operation).
          fragment_named doc n = Some f}"

text \<open>What is asked of a result: the fragments reached, each once, no two of one
  name.\<close>

definition rrf_spec ::
  "document_node \<Rightarrow> operation_definition_node \<Rightarrow> fragment_definition_node list \<Rightarrow> bool" where
  "rrf_spec doc operation frs =
    (set frs = reachable_fragments doc operation
     \<and> distinct (map (\<lambda>f. name_value (frag_name f)) frs))"

text \<open>A context whose caches hold what the methods put there: the table of the document,
  the spreads the loop computes, results that meet \<open>rrf_spec\<close>.\<close>

definition ctx_ok :: "'a ASTValidationContext_scheme \<Rightarrow> bool" where
  "ctx_ok ctx =
    ((fragments ctx = None \<or> fragments ctx = Some (fragments_of (ast ctx)))
     \<and> fragmentSpreads_ok ctx
     \<and> (\<forall>operation frs. recursivelyReferencedFragments ctx operation = Some frs
           \<longrightarrow> rrf_spec (ast ctx) operation frs))"


section \<open>mapAsyncIterator (subscription/mapAsyncIterator)\<close>

text \<open>
  Promises are modelled by how they settle, one call of the mapped iterator being run to its
  end before the next is made: a promise is fulfilled with a value or rejected with an
  error, and \<open>p.then(onFulfilled, onRejected)\<close> hands the outcome of \<open>p\<close> to the matching
  function, a missing \<open>onRejected\<close> passing the rejection on.
\<close>

datatype ('e, 'a) settled = Fulfilled 'a | Rejected 'e

text \<open>\<open>IteratorResult\<close>: \<open>{value, done: false}\<close> or \<open>{value, done: true}\<close>; the value that
  comes with \<open>done: true\<close> may be \<open>undefined\<close>.\<close>

datatype ('a, 'r) IteratorResult = IterValue 'a | IterDone "'r nullable"

text \<open>
  The source iterator: an object in some state \<open>'s\<close> with a method \<open>next\<close> and, possibly,
  methods \<open>return\<close> and \<open>throw\<close>. As the protocol of async iterators asks, each method
  returns a promise (it does not throw by itself); the call may change the state.
\<close>

record ('s, 'e, 'a, 'r) AsyncIterator =
  it_next :: "'s \<Rightarrow> ('e, ('a, 'r) IteratorResult) settled \<times> 's"
  it_return :: "('s \<Rightarrow> ('e, ('a, 'r) IteratorResult) settled \<times> 's) option"
  it_throw :: "('e \<Rightarrow> 's \<Rightarrow> ('e, ('a, 'r) IteratorResult) settled \<times> 's) option"

text \<open>The calls made on the source are recorded, in order, beside its state.\<close>

datatype source_call = CallNext | CallReturn | CallThrow

type_synonym 's traced = "'s \<times> source_call list"

definition call_next ::
  "('s, 'e, 'a, 'r) AsyncIterator \<Rightarrow> 's traced
     \<Rightarrow> ('e, ('a, 'r) IteratorResult) settled \<times> 's traced" where
  "call_next iterator st =
    (case st of (s, calls) \<Rightarrow>
       (case it_next iterator s of (p, s') \<Rightarrow> (p, (s', calls @ [CallNext]))))"

definition call_return ::
  "('s \<Rightarrow> ('e, ('a, 'r) IteratorResult) settled \<times> 's) \<Rightarrow> 's traced
     \<Rightarrow> ('e, ('a, 'r) IteratorResult) settled \<times> 's traced" where
  "call_return return' st =
    (case st of (s, calls) \<Rightarrow>
       (case return' s of (p, s') \<Rightarrow> (p, (s', calls @ [CallReturn]))))"

definition call_throw ::
  "('e \<Rightarrow> 's \<Rightarrow> ('e, ('a, 'r) IteratorResult) settled \<times> 's) \<Rightarrow> 'e \<Rightarrow> 's traced
     \<Rightarrow> ('e, ('a, 'r) IteratorResult) settled \<times> 's traced" where
  "call_throw throw' error st =
    (case st of (s, calls) \<Rightarrow>
       (case throw' error s of (p, s') \<Rightarrow> (p, (s', calls @ [CallThrow]))))"

text \<open>
  \<open>asyncMapValue(value, callback)\<close>: the promise is fulfilled with what the callback returns
  and rejected with what it throws; when the callback returns a promise, it settles as
  that promise does. A callback is given by the outcome for each value.
\<close>

definition asyncMapValue :: "'a \<Rightarrow> ('a \<Rightarrow> ('e, 'u) settled) \<Rightarrow> ('e, 'u) settled" where
  "asyncMapValue v callback = callback v"

definition iteratorResult :: "'u \<Rightarrow> ('u, 'r) IteratorResult" where
  "iteratorResult v = IterValue v"

text \<open>\<open>abruptClose\<close> exists when the source has a \<open>return\<close> method: it calls it and rejects
  with the error, however the promise of \<open>return\<close> settles.\<close>

definition abruptClose ::
  "('s, 'e, 'a, 'r) AsyncIterator
     \<Rightarrow> ('e \<Rightarrow> 's traced \<Rightarrow> ('e, ('u, 'r) IteratorResult) settled \<times> 's traced) option" where
  "abruptClose iterator =
    (case it_return iterator of
       Some return' \<Rightarrow>
         Some (\<lambda>error st. case call_return return' st of (p, st') \<Rightarrow> (Rejected error, st'))
     | None \<Rightarrow> None)"

text \<open>\<open>asyncMapValue(x, f).then(iteratorResult, abruptClose)\<close>.\<close>

definition map_then ::
  "('s, 'e, 'a, 'r) AsyncIterator \<Rightarrow> ('e, 'u) settled \<Rightarrow> 's traced
     \<Rightarrow> ('e, ('u, 'r) IteratorResult) settled \<times> 's traced" where
  "map_then iterator p st =
    (case p of
       Fulfilled u \<Rightarrow> (Fulfilled (iteratorResult u), st)
     | Rejected error \<Rightarrow>
         (case abruptClose iterator of
            Some close \<Rightarrow> close error st
          | None \<Rightarrow> (Rejected error, st)))"

definition mapResult ::
  "('s, 'e, 'a, 'r) AsyncIterator \<Rightarrow> ('a \<Rightarrow> ('e, 'u) settled) \<Rightarrow> ('a, 'r) IteratorResult
     \<Rightarrow> 's traced \<Rightarrow> ('e, ('u, 'r) IteratorResult) settled \<times> 's traced" where
  "mapResult iterator callback result st =
    (case result of
       IterDone r \<Rightarrow> (Fulfilled (IterDone r), st)
     | IterValue v \<Rightarrow> map_then iterator (asyncMapValue v callback) st)"

text \<open>\<open>mapReject\<close> exists when a \<open>rejectCallback\<close> was given.\<close>

definition mapReject ::
  "('s, 'e, 'a, 'r) AsyncIterator \<Rightarrow> ('e \<Rightarrow> ('e, 'u) settled) option
     \<Rightarrow> ('e \<Rightarrow> 's traced \<Rightarrow> ('e, ('u, 'r) IteratorResult) settled \<times> 's traced) option" where
  "mapReject iterator rejectCallback =
    (case rejectCallback of
       Some reject \<Rightarrow> Some (\<lambda>error st. map_then iterator (asyncMapValue error reject) st)
     | None \<Rightarrow> None)"

text \<open>\<open>p.then(mapResult, mapReject)\<close> for the promise \<open>p\<close> of a call on the source.\<close>

definition then_map ::
  "('s, 'e, 'a, 'r) AsyncIterator \<Rightarrow> ('a \<Rightarrow> ('e, 'u) settled)
     \<Rightarrow> ('e \<Rightarrow> ('e, 'u) settled) option
     \<Rightarrow> ('e, ('a, 'r) IteratorResult) settled \<times> 's traced
     \<Rightarrow> ('e, ('u, 'r) IteratorResult) settled \<times> 's traced" where
  "then_map iterator callback rejectCallback pst =
    (case pst of
       (Fulfilled result, st) \<Rightarrow> mapResult iterator callback result st
     | (Rejected error, st) \<Rightarrow>
         (case mapReject iterator rejectCallback of
            Some f \<Rightarrow> f error st
          | None \<Rightarrow> (Rejected error, st)))"

text \<open>The object \<open>mapAsyncIterator\<close> returns, with its three methods.\<close>

record ('s, 'e, 'u, 'r) MappedIterator =
  mapped_next :: "'s traced \<Rightarrow> ('e, ('u, 'r) IteratorResult) settled \<times> 's traced"
  mapped_return :: "'s traced \<Rightarrow> ('e, ('u, 'r) IteratorResult) settled \<times> 's traced"
  mapped_throw :: "'e \<Rightarrow> 's traced \<Rightarrow> ('e, ('u, 'r) IteratorResult) settled \<times> 's traced"

definition mapAsyncIterator ::
  "('s, 'e, 'a, 'r) AsyncIterator \<Rightarrow> ('a \<Rightarrow> ('e, 'u) settled)
     \<Rightarrow> ('e \<Rightarrow> ('e, 'u) settled) option \<Rightarrow> ('s, 'e, 'u, 'r) MappedIterator" where
  "mapAsyncIterator iterator callback rejectCallback =
    \<lparr> mapped_next =
        (\<lambda>st. then_map iterator callback rejectCallback (call_next iterator st)),
      mapped_return =
        (\<lambda>st. case it_return iterator of
                 Some return' \<Rightarrow>
                   then_map iterator callback rejectCallback (call_return return' st)
               | None \<Rightarrow> (Fulfilled (IterDone Undefined), st)),
      mapped_throw =
        (\<lambda>error st. case it_throw iterator of
                 Some throw' \<Rightarrow>
                   then_map iterator callback rejectCallback (call_throw throw' error st)
               | None \<Rightarrow>
                   (case abruptClose iterator of
                      Some close \<Rightarrow> close error st
                    | None \<Rightarrow> (Rejected error, st))) \<rparr>"

subsection \<open>Using the mapped iterator\<close>

text \<open>What a consumer does with the mapped iterator during its life: a sequence of calls,
  each awaited before the next.\<close>

datatype 'e consumer_call = DoNext | DoReturn | DoThrow 'e

fun consume ::
  "('s, 'e, 'u, 'r) MappedIterator \<Rightarrow> 'e consumer_call list \<Rightarrow> 's traced
     \<Rightarrow> ('e, ('u, 'r) IteratorResult) settled list \<times> 's traced" where
  "consume m [] st = ([], st)"
| "consume m (c # cs) st =
     (case (case c of
              DoNext \<Rightarrow> mapped_next m st
            | DoReturn \<Rightarrow> mapped_return m st
            | DoThrow e \<Rightarrow> mapped_throw m e st) of
        (p, st') \<Rightarrow> (case consume m cs st' of (ps, st'') \<Rightarrow> (p # ps, st'')))"

text \<open>The source, started in state \<open>s\<close>, yields the values \<open>vs\<close> in this order and then
  completes with the result \<open>{value: r, done: true}\<close>.\<close>

fun yields ::
  "('s, 'e, 'a, 'r) AsyncIterator \<Rightarrow> 's \<Rightarrow> 'a list \<Rightarrow> 'r nullable \<Rightarrow> bool" where
  "yields iterator s [] r = (fst (it_next iterator s) = Fulfilled (IterDone r))"
| "yields iterator s (v # vs) r =
     (fst (it_next iterator s) = Fulfilled (IterValue v)
      \<and> yields iterator (snd (it_next iterator s)) vs r)"

text \<open>A source to run the functions on, behaving as an async generator over a list of
  numbers does: \<open>next\<close> takes the first remaining number, \<open>return\<close> drops what remains.\<close>

definition list_source :: "(nat list, string, nat, unit) AsyncIterator" where
  "list_source =
    \<lparr> it_next = (\<lambda>s. case s of
                      [] \<Rightarrow> (Fulfilled (IterDone Undefined), [])
                    | v # vs \<Rightarrow> (Fulfilled (IterValue v), vs)),
      it_return = Some (\<lambda>s. (Fulfilled (IterDone Undefined), [])),
      it_throw = None \<rparr>"

text \<open>A callback that throws on the value \<open>2\<close> and doubles every other value.\<close>

definition demo_callback :: "nat \<Rightarrow> (string, nat) settled" where
  "demo_callback v = (if v = 2 then Rejected ''boom'' else Fulfilled (2 * v))"


section \<open>Walking the AST\<close>

subsection \<open>The children of a node\<close>

text \<open>
  Modelled from the spec: the table \<open>QueryDocumentKeys\<close> of \<open>language/visitor\<close>, which
  is not among the sources. The children of a node are its parts in the order in which the
  data model lists them (and in which \<open>ast.ts\<close> declares them): for each part, the node or
  the nodes of the array, an absent one being passed over. The type-system definitions are
  kept here without their parts, so they have no children.
\<close>

definition opt_node :: "('a \<Rightarrow> ast_node) \<Rightarrow> 'a option \<Rightarrow> ast_node list" where
  "opt_node f x = (case x of Some y \<Rightarrow> [f y] | None \<Rightarrow> [])"

fun definition_children :: "definition_node \<Rightarrow> ast_node list" where
  "definition_children (OperationDefinitionD (OperationDefinition operation name vds dirs ss)) =
     opt_node NameN name @ map VariableDefinitionN vds @ map DirectiveN dirs
       @ [SelectionSetN ss]"
| "definition_children (FragmentDefinitionD (FragmentDefinition name vds tc dirs ss)) =
     [NameN name] @ map VariableDefinitionN vds @ [TypeN (NamedTypeT tc)]
       @ map DirectiveN dirs @ [SelectionSetN ss]"
| "definition_children _ = []"

fun selection_children :: "selection_node \<Rightarrow> ast_node list" where
  "selection_children (FieldS (Field al name args dirs ss)) =
     opt_node NameN al @ [NameN name] @ map ArgumentN args @ map DirectiveN dirs
       @ opt_node SelectionSetN ss"
| "selection_children (FragmentSpreadS (FragmentSpread name dirs)) =
     [NameN name] @ map DirectiveN dirs"
| "selection_children (InlineFragmentS (InlineFragment tc dirs ss)) =
     opt_node (\<lambda>t. TypeN (NamedTypeT t)) tc @ map DirectiveN dirs @ [SelectionSetN ss]"

fun value_children :: "value_node \<Rightarrow> ast_node list" where
  "value_children (VariableV (Variable name)) = [NameN name]"
| "value_children (ListValue vs) = map ValueN vs"
| "value_children (ObjectValue fs) = map ObjectFieldN fs"
| "value_children _ = []"

fun type_children :: "type_node \<Rightarrow> ast_node list" where
  "type_children (NamedTypeT (NamedType name)) = [NameN name]"
| "type_children (ListType t) = [TypeN t]"
| "type_children (NonNullType t) = [TypeN t]"

fun children :: "ast_node \<Rightarrow> ast_node list" where
  "children (NameN _) = []"
| "children (DocumentN (Document defs)) = map DefinitionN defs"
| "children (DefinitionN d) = definition_children d"
| "children (VariableDefinitionN (VariableDefinition var ty dv dirs)) =
     [ValueN (VariableV var), TypeN ty] @ opt_node ValueN dv @ map DirectiveN dirs"
| "children (SelectionSetN (SelectionSet sels)) = map SelectionN sels"
| "children (SelectionN s) = selection_children s"
| "children (ArgumentN (Argument name v)) = [NameN name, ValueN v]"
| "children (ValueN v) = value_children v"
| "children (ObjectFieldN (ObjectField name v)) = [NameN name, ValueN v]"
| "children (DirectiveN (Directive name args)) = [NameN name] @ map ArgumentN args"
| "children (TypeN t) = type_children t"
| "children (TypeSystemPartN _) = []"

subsection \<open>The number of nodes of a tree\<close>

fun type_weight :: "type_node \<Rightarrow> nat" where
  "type_weight (NamedTypeT _) = 2"
| "type_weight (ListType t) = Suc (type_weight t)"
| "type_weight (NonNullType t) = Suc (type_weight t)"

fun value_weight :: "value_node \<Rightarrow> nat"
  and object_field_weight :: "object_field_node \<Rightarrow> nat" where
  "value_weight (VariableV _) = 2"
| "value_weight (IntValue _) = 1"
| "value_weight (FloatValue _) = 1"
| "value_weight (StringValue _ _) = 1"
| "value_weight (BooleanValue _) = 1"
| "value_weight NullValue = 1"
| "value_weight (EnumValue _) = 1"
| "value_weight (ListValue vs) = Suc (sum_list (map value_weight vs))"
| "value_weight (ObjectValue fs) = Suc (sum_list (map object_field_weight fs))"
| "object_field_weight (ObjectField _ v) = 2 + value_weight v"

fun argument_weight :: "argument_node \<Rightarrow> nat" where
  "argument_weight (Argument _ v) = 2 + value_weight v"

fun directive_weight :: "directive_node \<Rightarrow> nat" where
  "directive_weight (Directive _ args) = 2 + sum_list (map argument_weight args)"

fun variable_definition_weight :: "variable_definition_node \<Rightarrow> nat" where
  "variable_definition_weight (VariableDefinition var ty dv dirs) =
     3 + type_weight ty + (case dv of Some v \<Rightarrow> value_weight v | None \<Rightarrow> 0)
       + sum_list (map directive_weight dirs)"

fun selection_weight :: "selection_node \<Rightarrow> nat"
  and selection_set_weight :: "selection_set_node \<Rightarrow> nat" where
  "selection_weight (FieldS (Field al name args dirs None)) =
     2 + (case al of Some _ \<Rightarrow> 1 | None \<Rightarrow> 0) + sum_list (map argument_weight args)
       + sum_list (map directive_weight dirs)"
| "selection_weight (FieldS (Field al name args dirs (Some ss))) =
     2 + (case al of Some _ \<Rightarrow> 1 | None \<Rightarrow> 0) + sum_list (map argument_weight args)
       + sum_list (map directive_weight dirs) + selection_set_weight ss"
| "selection_weight (FragmentSpreadS (FragmentSpread name dirs)) =
     2 + sum_list (map directive_weight dirs)"
| "selection_weight (InlineFragmentS (InlineFragment tc dirs ss)) =
     1 + (case tc of Some _ \<Rightarrow> 2 | None \<Rightarrow> 0) + sum_list (map directive_weight dirs)
       + selection_set_weight ss"
| "selection_set_weight (SelectionSet sels) = Suc (sum_list (map selection_weight sels))"

fun definition_weight :: "definition_node \<Rightarrow> nat" where
  "definition_weight (OperationDefinitionD (OperationDefinition operation name vds dirs ss)) =
     1 + (case name of Some _ \<Rightarrow> 1 | None \<Rightarrow> 0)
       + sum_list (map variable_definition_weight vds)
       + sum_list (map directive_weight dirs) + selection_set_weight ss"
| "definition_weight (FragmentDefinitionD (FragmentDefinition name vds tc dirs ss)) =
     4 + sum_list (map variable_definition_weight vds)
       + sum_list (map directive_weight dirs) + selection_set_weight ss"
| "definition_weight _ = 1"

fun node_weight :: "ast_node \<Rightarrow> nat" where
  "node_weight (NameN _) = 1"
| "node_weight (DocumentN (Document defs)) = Suc (sum_list (map definition_weight defs))"
| "node_weight (DefinitionN d) = definition_weight d"
| "node_weight (VariableDefinitionN vd) = variable_definition_weight vd"
| "node_weight (SelectionSetN ss) = selection_set_weight ss"
| "node_weight (SelectionN s) = selection_weight s"
| "node_weight (ArgumentN a) = argument_weight a"
| "node_weight (ValueN v) = value_weight v"
| "node_weight (ObjectFieldN f) = object_field_weight f"
| "node_weight (DirectiveN d) = directive_weight d"
| "node_weight (TypeN t) = type_weight t"
| "node_weight (TypeSystemPartN _) = 1"

lemma weight_comp [simp]:
  "node_weight \<circ> NameN = (\<lambda>_. 1)"
  "node_weight \<circ> DefinitionN = definition_weight"
  "node_weight \<circ> VariableDefinitionN = variable_definition_weight"
  "node_weight \<circ> SelectionN = selection_weight"
  "node_weight \<circ> ArgumentN = argument_weight"
  "node_weight \<circ> ValueN = value_weight"
  "node_weight \<circ> ObjectFieldN = object_field_weight"
  "node_weight \<circ> DirectiveN = directive_weight"
  by (simp_all add: fun_eq_iff)

lemma children_weight: "sum_list (map node_weight (children n)) < node_weight n"
proof (cases n)
  case (DefinitionN d)
  then show ?thesis
    by (cases d rule: definition_children.cases) (auto simp: opt_node_def split: option.splits)
next
  case (SelectionN s)
  then show ?thesis
    by (cases s rule: selection_weight.cases)
       (auto simp: opt_node_def split: option.splits)
next
  case (ValueN v)
  then show ?thesis by (cases v rule: value_children.cases) auto
next
  case (TypeN t)
  then show ?thesis by (cases t rule: type_children.cases) auto
next
  case (DocumentN d)
  then show ?thesis by (cases d) simp
next
  case (VariableDefinitionN vd)
  then show ?thesis by (cases vd) (auto simp: opt_node_def split: option.splits)
next
  case (SelectionSetN ss)
  then show ?thesis by (cases ss) simp
next
  case (ArgumentN a)
  then show ?thesis by (cases a) simp
next
  case (ObjectFieldN f)
  then show ?thesis by (cases f) simp
next
  case (DirectiveN d)
  then show ?thesis by (cases d) simp
qed simp_all

lemma node_weight_pos: "0 < node_weight n"
  using children_weight [of n] by simp

subsection \<open>visit\<close>

text \<open>The call of the function a visitor has for the kind of a node and a direction; a
  visitor without such a function answers \<open>undefined\<close> and changes nothing.\<close>

definition call_visitor ::
  "('ty, 'v, 'ev, 'u, unit) visitor \<Rightarrow> bool \<Rightarrow> ast_node \<Rightarrow> ('ty, 'v, 'ev) TypeInfo \<times> 'u
     \<Rightarrow> visit_result \<times> ('ty, 'v, 'ev) TypeInfo \<times> 'u" where
  "call_visitor visitor isLeaving node st =
    (case st of (ti, u) \<Rightarrow>
       (case visitor (node_kind node) isLeaving of
          Some fn \<Rightarrow> fn node () ti u
        | None \<Rightarrow> (ResUndefined, ti, u)))"

text \<open>
  Modelled from the spec: \<open>visit\<close> of \<open>language/visitor\<close>, which is not among the sources
  (the specification takes the generic visitor as given, with \<open>enter\<close> before the children
  of a node and \<open>leave\<close> after them). The walk is depth first, the children in the order of
  \<open>children\<close>. The function the visitor has for the kind of a node is called on entering it;
  when it answers \<open>false\<close> the node's subtree is skipped and the node is not left; when it
  answers \<open>undefined\<close> (or the visitor has no function for the kind) the children are
  visited and then the function for leaving is called. The other answers (stopping the
  walk, deleting or replacing a node) are outside this model: the walk then gives \<open>None\<close>.
  The arguments after the node (key, parent, path, ancestors) are not modelled.
\<close>

function visit_node ::
    "('ty, 'v, 'ev, 'u, unit) visitor \<Rightarrow> ast_node \<Rightarrow> ('ty, 'v, 'ev) TypeInfo \<times> 'u
       \<Rightarrow> (('ty, 'v, 'ev) TypeInfo \<times> 'u) option"
  and visit_nodes ::
    "('ty, 'v, 'ev, 'u, unit) visitor \<Rightarrow> ast_node list \<Rightarrow> ('ty, 'v, 'ev) TypeInfo \<times> 'u
       \<Rightarrow> (('ty, 'v, 'ev) TypeInfo \<times> 'u) option" where
  "visit_node visitor node st =
    (case call_visitor visitor False node st of
       (ResUndefined, st1) \<Rightarrow>
         (case visit_nodes visitor (children node) st1 of
            None \<Rightarrow> None
          | Some st2 \<Rightarrow>
             (case call_visitor visitor True node st2 of
                (ResUndefined, st3) \<Rightarrow> Some st3
              | (ResFalse, st3) \<Rightarrow> Some st3
              | _ \<Rightarrow> None))
     | (ResFalse, st1) \<Rightarrow> Some st1
     | _ \<Rightarrow> None)"
| "visit_nodes visitor [] st = Some st"
| "visit_nodes visitor (n # ns) st =
    (case visit_node visitor n st of
       None \<Rightarrow> None
     | Some st' \<Rightarrow> visit_nodes visitor ns st')"
  by pat_completeness auto
termination
proof (relation "measure (\<lambda>x. case x of
          Inl (visitor, node, st) \<Rightarrow> 2 * node_weight node
        | Inr (visitor, ns, st) \<Rightarrow> 2 * sum_list (map node_weight ns) + 1)")
  fix visitor :: "('ty, 'v, 'ev, 'u, unit) visitor" and node :: ast_node
    and st st1 :: "('ty, 'v, 'ev) TypeInfo \<times> 'u"
  show "(Inr (visitor, children node, st1), Inl (visitor, node, st))
        \<in> measure (\<lambda>x. case x of
          Inl (visitor, node, st) \<Rightarrow> 2 * node_weight node
        | Inr (visitor, ns, st) \<Rightarrow> 2 * sum_list (map node_weight ns) + 1)"
    using children_weight [of node] by simp
qed (simp_all add: node_weight_pos)

declare visit_node.simps [simp del]

subsection \<open>visitWithTypeInfo as a visitor\<close>

text \<open>The object \<open>visitWithTypeInfo\<close> returns has an \<open>enter\<close> and a \<open>leave\<close> function and
  nothing else, so these are the functions found in it for every kind.\<close>

definition visitWithTypeInfo ::
  "('ty, 'v, 'ev, 'u, 'x) visitor \<Rightarrow> ('ty, 'v, 'ev, 'u, 'x) visitor" where
  "visitWithTypeInfo visitor kind isLeaving =
    Some (if isLeaving then visitWithTypeInfo_leave visitor
          else visitWithTypeInfo_enter visitor)"

subsection \<open>getVariableUsages\<close>

text \<open>
  The visitor \<open>{ VariableDefinition: () => false, Variable(variable) { newUsages.push(...) } }\<close>.
  A function under the name of a kind is the function for entering nodes of that kind; there
  is none for leaving and none for the other kinds. The state of the visitor is the array
  \<open>newUsages\<close>.
\<close>

text \<open>The node as a \<open>VariableNode\<close>, when it is one.\<close>

fun variable_of :: "ast_node \<Rightarrow> variable_node option" where
  "variable_of (ValueN (VariableV v)) = Some v"
| "variable_of _ = None"

definition usages_visitor ::
  "('ty, 'v, 'ev, ('ty, 'v) VariableUsage list, 'x) visitor" where
  "usages_visitor kind isLeaving =
    (if isLeaving then None
     else if kind = VARIABLE_DEFINITION then
       Some (\<lambda>node args typeInfo newUsages. (ResFalse, typeInfo, newUsages))
     else if kind = VARIABLE then
       Some (\<lambda>node args typeInfo newUsages.
               (ResUndefined, typeInfo,
                (case variable_of node of
                   Some variable \<Rightarrow>
                     push newUsages
                       \<lparr> usage_node = variable,
                         usage_type = getInputType typeInfo,
                         usage_defaultValue = getDefaultValue typeInfo \<rparr>
                 | None \<Rightarrow> newUsages)))
     else None)"

definition ast_node_of :: "node_with_selection_set \<Rightarrow> ast_node" where
  "ast_node_of node =
    (case node of
       OperationNS od \<Rightarrow> DefinitionN (OperationDefinitionD od)
     | FragmentNS fd \<Rightarrow> DefinitionN (FragmentDefinitionD fd))"

definition getVariableUsages ::
  "('ty, 'v, 'ev) ValidationContext \<Rightarrow> node_with_selection_set
     \<Rightarrow> (('ty, 'v) VariableUsage list \<times> ('ty, 'v, 'ev) ValidationContext) option" where
  "getVariableUsages ctx node =
    (case variableUsages ctx node of
       Some usages \<Rightarrow> Some (usages, ctx)
     | None \<Rightarrow>
        (case visit_node (visitWithTypeInfo usages_visitor) (ast_node_of node)
                (new_TypeInfo (ctx_schema ctx) None None, []) of
           None \<Rightarrow> None
         | Some (typeInfo, newUsages) \<Rightarrow>
             Some (newUsages,
                   ctx\<lparr>variableUsages := (variableUsages ctx)(node \<mapsto> newUsages)\<rparr>)))"

subsection \<open>What getVariableUsages is to return\<close>

lemma child_weight: "c \<in> set (children n) \<Longrightarrow> node_weight c < node_weight n"
  using children_weight [of n] member_le_sum_list [of "node_weight c" "map node_weight (children n)"]
  by force

text \<open>The \<open>Variable\<close> nodes under a node, in the order of the document, those inside a
  variable definition left out.\<close>

function variables_under :: "ast_node \<Rightarrow> variable_node list" where
  "variables_under n =
    (if node_kind n = VARIABLE_DEFINITION then []
     else (case variable_of n of Some v \<Rightarrow> [v] | None \<Rightarrow> [])
          @ concat (map variables_under (children n)))"
  by pat_completeness auto
termination
  by (relation "measure node_weight") (simp_all add: child_weight)

declare variables_under.simps [simp del]

text \<open>
  The usage records for the variables under a node, for a TypeInfo that stands above the
  node: the TypeInfo at a position is the one that has entered the nodes on the way down to
  it, the position itself included.
\<close>

function usages_at ::
  "('ty, 'v, 'ev) TypeInfo \<Rightarrow> ast_node \<Rightarrow> ('ty, 'v) VariableUsage list" where
  "usages_at ti n =
    (if node_kind n = VARIABLE_DEFINITION then []
     else (case variable_of n of
             Some v \<Rightarrow>
               [\<lparr> usage_node = v,
                  usage_type = getInputType (enter ti n),
                  usage_defaultValue = getDefaultValue (enter ti n) \<rparr>]
           | None \<Rightarrow> [])
          @ concat (map (usages_at (enter ti n)) (children n)))"
  by pat_completeness auto
termination
  by (relation "measure (\<lambda>(ti, n). node_weight n)") (simp_all add: child_weight)

declare usages_at.simps [simp del]

text \<open>A cache of \<open>getVariableUsages\<close> holds, for each key, the records of its variables for
  a new TypeInfo of the context's schema.\<close>

definition variableUsages_ok :: "('ty, 'v, 'ev) ValidationContext \<Rightarrow> bool" where
  "variableUsages_ok ctx =
    (\<forall>node usages. variableUsages ctx node = Some usages
        \<longrightarrow> usages = usages_at (new_TypeInfo (ctx_schema ctx) None None) (ast_node_of node))"


subsection \<open>A document to run the functions on\<close>

text \<open>
  \<open>{ a { ...A } ...B b { ...C } }\<close> with the fragments \<open>A\<close> (which spreads \<open>B\<close>),
  \<open>B\<close> (which spreads \<open>A\<close>: a cycle) and \<open>C\<close>, and a scalar type definition.
\<close>

definition demo_spread :: "string \<Rightarrow> fragment_spread_node" where
  "demo_spread n = FragmentSpread (Name n) []"

definition field_with :: "string \<Rightarrow> selection_node list \<Rightarrow> selection_node" where
  "field_with n sels = FieldS (Field None (Name n) [] [] (Some (SelectionSet sels)))"

definition leaf_field :: "string \<Rightarrow> selection_node" where
  "leaf_field n = FieldS (Field None (Name n) [] [] None)"

definition demo_set :: selection_set_node where
  "demo_set = SelectionSet
     [field_with ''a'' [FragmentSpreadS (demo_spread ''A'')],
      FragmentSpreadS (demo_spread ''B''),
      field_with ''b'' [FragmentSpreadS (demo_spread ''C'')]]"

definition demo_operation :: operation_definition_node where
  "demo_operation = OperationDefinition query None [] [] demo_set"

definition fragment_on :: "string \<Rightarrow> selection_node list \<Rightarrow> fragment_definition_node" where
  "fragment_on n sels =
     FragmentDefinition (Name n) [] (NamedType (Name ''Q'')) [] (SelectionSet sels)"

definition demo_document :: document_node where
  "demo_document = Document
     [OperationDefinitionD demo_operation,
      FragmentDefinitionD (fragment_on ''A'' [FragmentSpreadS (demo_spread ''B'')]),
      FragmentDefinitionD (fragment_on ''B'' [FragmentSpreadS (demo_spread ''A'')]),
      FragmentDefinitionD (fragment_on ''C'' [leaf_field ''f'']),
      ScalarTypeDefinition (Name ''S''),
      SchemaDefinition]"

text \<open>\<open>{ ...A }\<close> in a document that defines the fragment \<open>A\<close> twice, first as
  \<open>{ x }\<close>, then as \<open>{ y }\<close>.\<close>

definition demo_operation_A :: operation_definition_node where
  "demo_operation_A =
     OperationDefinition query None [] [] (SelectionSet [FragmentSpreadS (demo_spread ''A'')])"

definition demo_document_twice :: document_node where
  "demo_document_twice = Document
     [OperationDefinitionD demo_operation_A,
      FragmentDefinitionD (fragment_on ''A'' [leaf_field ''x'']),
      FragmentDefinitionD (fragment_on ''A'' [leaf_field ''y''])]"

text \<open>\<open>query ($y: S) { f(a: $y) }\<close>.\<close>

definition demo_query :: operation_definition_node where
  "demo_query =
    OperationDefinition query None [demo_variable_y] []
      (SelectionSet
         [FieldS (Field None (Name ''f'')
                    [Argument (Name ''a'') (VariableV (Variable (Name ''y'')))] [] None)])"

section \<open>Properties of TypeInfo\<close>

lemmas enter_defs = enter_def enter_SelectionSet_def enter_Field_def
  enter_OperationDefinition_def enter_typeCondition_def enter_VariableDefinition_def
  enter_Argument_def enter_List_def enter_ObjectField_def enter_Enum_def push_def Let_def

text \<open>Nodes of the kinds without a case are left alone by \<open>enter\<close> and \<open>leave\<close>.\<close>

lemma other_definition:
  "definition_kind d \<notin> {OPERATION_DEFINITION, FRAGMENT_DEFINITION} \<Longrightarrow>
     definition_kind d \<notin> effect_kinds \<and> enter ti (DefinitionN d) = ti
     \<and> leave ti (DefinitionN d) = ti"
  by (cases d) (simp_all add: effect_kinds_def enter_def leave_def)

lemma other_value:
  "value_kind v \<notin> {LIST, ENUM} \<Longrightarrow>
     value_kind v \<notin> effect_kinds \<and> enter ti (ValueN v) = ti \<and> leave ti (ValueN v) = ti"
  by (cases v) (simp_all add: effect_kinds_def enter_def leave_def)

lemma other_type:
  "type_kind t \<notin> effect_kinds \<and> enter ti (TypeN t) = ti \<and> leave ti (TypeN t) = ti"
  by (cases t) (simp_all add: effect_kinds_def enter_def leave_def)

lemma other_part:
  "type_system_part_kind p \<notin> effect_kinds \<and> enter ti (TypeSystemPartN p) = ti
   \<and> leave ti (TypeSystemPartN p) = ti"
  by (cases p) (simp_all add: effect_kinds_def enter_def leave_def)

lemma other_spread:
  "FRAGMENT_SPREAD \<notin> effect_kinds \<and> enter ti (SelectionN (FragmentSpreadS sp)) = ti
   \<and> leave ti (SelectionN (FragmentSpreadS sp)) = ti"
  by (simp_all add: effect_kinds_def enter_def leave_def)

lemma other_name:
  "NAME \<notin> effect_kinds \<and> enter ti (NameN nm) = ti \<and> leave ti (NameN nm) = ti"
  by (simp_all add: effect_kinds_def enter_def leave_def)

lemma other_document:
  "DOCUMENT \<notin> effect_kinds \<and> enter ti (DocumentN doc) = ti \<and> leave ti (DocumentN doc) = ti"
  by (simp_all add: effect_kinds_def enter_def leave_def)

text \<open>Case analysis on a node along the cases of the two switches.\<close>

lemma node_cases [case_names SelectionSet Field Directive OperationDefinition InlineFragment
    FragmentDefinition VariableDefinition Argument List ObjectField Enum Other]:
  obtains
    ss where "n = SelectionSetN ss"
  | f where "n = SelectionN (FieldS f)"
  | d where "n = DirectiveN d"
  | od where "n = DefinitionN (OperationDefinitionD od)"
  | i where "n = SelectionN (InlineFragmentS i)"
  | fd where "n = DefinitionN (FragmentDefinitionD fd)"
  | vd where "n = VariableDefinitionN vd"
  | a where "n = ArgumentN a"
  | vs where "n = ValueN (ListValue vs)"
  | f where "n = ObjectFieldN f"
  | v where "n = ValueN (EnumValue v)"
  | "node_kind n \<notin> effect_kinds" "\<And>ti :: ('ty, 'v, 'ev) TypeInfo. enter ti n = ti"
      "\<And>ti :: ('ty, 'v, 'ev) TypeInfo. leave ti n = ti"
proof (cases n)
  case (DefinitionN d)
  show ?thesis
  proof (cases "definition_kind d \<in> {OPERATION_DEFINITION, FRAGMENT_DEFINITION}")
    case True
    then show ?thesis using DefinitionN that(4,6) by (cases d) simp_all
  next
    case False
    then show ?thesis by (intro that(12)) (simp_all add: DefinitionN other_definition)
  qed
next
  case (SelectionN s)
  then show ?thesis using that(2,5)
    by (cases s) (simp_all, intro that(12), simp_all add: other_spread)
next
  case (ValueN v)
  show ?thesis
  proof (cases "value_kind v \<in> {LIST, ENUM}")
    case True
    then show ?thesis using ValueN that(9,11) by (cases v) simp_all
  next
    case False
    then show ?thesis by (intro that(12)) (simp_all add: ValueN other_value)
  qed
next
  case (TypeN t)
  then show ?thesis by (intro that(12)) (simp_all add: other_type)
next
  case (TypeSystemPartN p)
  then show ?thesis by (intro that(12)) (simp_all add: other_part)
next
  case (NameN nm)
  then show ?thesis by (intro that(12)) (simp_all add: other_name)
next
  case (DocumentN doc)
  then show ?thesis by (intro that(12)) (simp_all add: other_document)
qed (use that in blast)+

lemma enter_stack_len:
  fixes ti :: "('ty, 'v, 'ev) TypeInfo"
  shows "stack_len s (enter ti n) =
         stack_len s ti + (if s \<in> stacks_of_kind (node_kind n) then 1 else 0)"
  by (cases n rule: node_cases[where 'ty='ty and 'v='v and 'ev='ev]; cases s)
     (simp_all add: enter_defs stacks_of_kind_def effect_kinds_def)

lemma leave_stack_len:
  fixes ti :: "('ty, 'v, 'ev) TypeInfo"
  shows "stack_len s (leave ti n) =
         stack_len s ti - (if s \<in> stacks_of_kind (node_kind n) then 1 else 0)"
  by (cases n rule: node_cases[where 'ty='ty and 'v='v and 'ev='ev]; cases s)
     (simp_all add: leave_def pop_def stacks_of_kind_def effect_kinds_def)

lemma leave_enter_stacks:
  fixes ti :: "('ty, 'v, 'ev) TypeInfo"
  shows "typeStack (leave (enter ti n) n) = typeStack ti"
    and "parentTypeStack (leave (enter ti n) n) = parentTypeStack ti"
    and "inputTypeStack (leave (enter ti n) n) = inputTypeStack ti"
    and "fieldDefStack (leave (enter ti n) n) = fieldDefStack ti"
    and "defaultValueStack (leave (enter ti n) n) = defaultValueStack ti"
  by (cases n rule: node_cases[where 'ty='ty and 'v='v and 'ev='ev];
      simp add: enter_defs leave_def pop_def)+

lemma enter_keeps_below:
  fixes ti :: "('ty, 'v, 'ev) TypeInfo"
  shows "take (length (typeStack ti)) (typeStack (enter ti n)) = typeStack ti"
    and "take (length (parentTypeStack ti)) (parentTypeStack (enter ti n)) = parentTypeStack ti"
    and "take (length (inputTypeStack ti)) (inputTypeStack (enter ti n)) = inputTypeStack ti"
    and "take (length (fieldDefStack ti)) (fieldDefStack (enter ti n)) = fieldDefStack ti"
    and "take (length (defaultValueStack ti)) (defaultValueStack (enter ti n))
         = defaultValueStack ti"
  by (cases n rule: node_cases[where 'ty='ty and 'v='v and 'ev='ev];
      simp add: enter_defs)+

lemma leave_keeps_below:
  fixes ti :: "('ty, 'v, 'ev) TypeInfo"
  shows "typeStack (leave ti n) = take (length (typeStack (leave ti n))) (typeStack ti)"
    and "parentTypeStack (leave ti n)
         = take (length (parentTypeStack (leave ti n))) (parentTypeStack ti)"
    and "inputTypeStack (leave ti n)
         = take (length (inputTypeStack (leave ti n))) (inputTypeStack ti)"
    and "fieldDefStack (leave ti n)
         = take (length (fieldDefStack (leave ti n))) (fieldDefStack ti)"
    and "defaultValueStack (leave ti n)
         = take (length (defaultValueStack (leave ti n))) (defaultValueStack ti)"
  by (cases n rule: node_cases[where 'ty='ty and 'v='v and 'ev='ev];
      simp add: leave_def pop_def butlast_conv_take)+

text \<open>
  C1. For every node \<open>n\<close> and every state of a TypeInfo, \<open>leave n\<close> after \<open>enter n\<close>
  gives back the five stacks as they were. \<open>enter\<close> pushes one entry on each stack of
  \<open>stacks_of_kind (node_kind n)\<close> and on no other, \<open>leave\<close> pops one entry from each
  of the same stacks (in any state \<open>ti'\<close>), so which stacks move depends on the kind alone;
  and both leave the entries below the top as they are: the old stack is a prefix of the stack
  after \<open>enter\<close>, and the stack after \<open>leave\<close> is a prefix of the old one.
\<close>

theorem enter_leave_restores_stacks:
  fixes ti ti' :: "('ty, 'v, 'ev) TypeInfo"
  shows
   "(typeStack (leave (enter ti n) n) = typeStack ti
     \<and> parentTypeStack (leave (enter ti n) n) = parentTypeStack ti
     \<and> inputTypeStack (leave (enter ti n) n) = inputTypeStack ti
     \<and> fieldDefStack (leave (enter ti n) n) = fieldDefStack ti
     \<and> defaultValueStack (leave (enter ti n) n) = defaultValueStack ti)
    \<and> (\<forall>s. stack_len s (enter ti n)
             = stack_len s ti + (if s \<in> stacks_of_kind (node_kind n) then 1 else 0))
    \<and> (\<forall>s. stack_len s (leave ti' n)
             = stack_len s ti' - (if s \<in> stacks_of_kind (node_kind n) then 1 else 0))
    \<and> (take (length (typeStack ti)) (typeStack (enter ti n)) = typeStack ti
       \<and> take (length (parentTypeStack ti)) (parentTypeStack (enter ti n)) = parentTypeStack ti
       \<and> take (length (inputTypeStack ti)) (inputTypeStack (enter ti n)) = inputTypeStack ti
       \<and> take (length (fieldDefStack ti)) (fieldDefStack (enter ti n)) = fieldDefStack ti
       \<and> take (length (defaultValueStack ti)) (defaultValueStack (enter ti n))
           = defaultValueStack ti)
    \<and> (typeStack (leave ti' n) = take (length (typeStack (leave ti' n))) (typeStack ti')
       \<and> parentTypeStack (leave ti' n)
           = take (length (parentTypeStack (leave ti' n))) (parentTypeStack ti')
       \<and> inputTypeStack (leave ti' n)
           = take (length (inputTypeStack (leave ti' n))) (inputTypeStack ti')
       \<and> fieldDefStack (leave ti' n)
           = take (length (fieldDefStack (leave ti' n))) (fieldDefStack ti')
       \<and> defaultValueStack (leave ti' n)
           = take (length (defaultValueStack (leave ti' n))) (defaultValueStack ti'))"
proof (intro conjI allI)
  show "typeStack (leave ti' n) = take (length (typeStack (leave ti' n))) (typeStack ti')"
    by (rule leave_keeps_below)
  show "parentTypeStack (leave ti' n)
        = take (length (parentTypeStack (leave ti' n))) (parentTypeStack ti')"
    by (rule leave_keeps_below)
  show "inputTypeStack (leave ti' n)
        = take (length (inputTypeStack (leave ti' n))) (inputTypeStack ti')"
    by (rule leave_keeps_below)
  show "fieldDefStack (leave ti' n)
        = take (length (fieldDefStack (leave ti' n))) (fieldDefStack ti')"
    by (rule leave_keeps_below)
  show "defaultValueStack (leave ti' n)
        = take (length (defaultValueStack (leave ti' n))) (defaultValueStack ti')"
    by (rule leave_keeps_below)
qed (simp_all only: leave_enter_stacks enter_keeps_below enter_stack_len leave_stack_len)

lemma last_butlast_nth: "1 < length xs \<Longrightarrow> xs ! (length xs - 2) = last (butlast xs)"
proof (cases xs rule: rev_cases)
  case Nil
  then show "1 < length xs \<Longrightarrow> ?thesis" by simp
next
  case (snoc ys y)
  assume "1 < length xs"
  with snoc obtain zs z where "ys = zs @ [z]" by (cases ys rule: rev_cases) auto
  with snoc show ?thesis by (simp add: nth_append butlast_append)
qed

text \<open>
  C10. In every state the six accessors return a value without reading outside the array:
  \<open>undefined\<close> when the stack is too short (empty, or shorter than two for
  \<open>getParentInputType\<close>), otherwise the top entry, and for \<open>getParentInputType\<close> the
  entry just below the top of the input-type stack.
\<close>

theorem accessors_total:
  "getType ti = (if typeStack ti = [] then Undefined else last (typeStack ti))
   \<and> getParentType ti
       = (if parentTypeStack ti = [] then Undefined else last (parentTypeStack ti))
   \<and> getInputType ti
       = (if inputTypeStack ti = [] then Undefined else last (inputTypeStack ti))
   \<and> getParentInputType ti
       = (if length (inputTypeStack ti) < 2 then Undefined
          else last (butlast (inputTypeStack ti)))
   \<and> TypeInfo_getFieldDef ti
       = (if fieldDefStack ti = [] then Undefined else last (fieldDefStack ti))
   \<and> getDefaultValue ti
       = (if defaultValueStack ti = [] then Undefined else last (defaultValueStack ti))"
proof -
  have "getParentInputType ti
       = (if length (inputTypeStack ti) < 2 then Undefined
          else last (butlast (inputTypeStack ti)))"
    unfolding getParentInputType_def using last_butlast_nth [of "inputTypeStack ti"] by auto
  then show ?thesis
    by (simp add: getType_def getParentType_def getInputType_def TypeInfo_getFieldDef_def
          getDefaultValue_def last_conv_nth)
qed

section \<open>Properties of visitWithTypeInfo\<close>

text \<open>
  C4. The wrapped visitor, on entering a node \<open>n\<close>: \<open>typeInfo.enter(n)\<close> runs first, so the
  wrapped visitor's function \<open>fn\<close> runs in the state \<open>enter ti n\<close> (and when the visitor
  has no function for the kind the result is \<open>undefined\<close> in that state). When \<open>fn\<close>
  returns \<open>undefined\<close> nothing more happens. When it returns a replacement node \<open>m\<close>,
  \<open>typeInfo.leave(n)\<close> runs on the state \<open>fn\<close> left and then \<open>typeInfo.enter(m)\<close>.
  When it returns \<open>false\<close>, \<open>BREAK\<close> or \<open>null\<close>, only \<open>typeInfo.leave(n)\<close> runs,
  and if \<open>fn\<close> did not touch the TypeInfo itself the five stacks are then as they were
  before the node was entered. On leaving, the wrapped visitor's function runs first, in the
  state as it is, and \<open>typeInfo.leave(n)\<close> runs on the state it left.
\<close>

theorem visitWithTypeInfo_order:
  fixes ti :: "('ty, 'v, 'ev) TypeInfo" and visitor :: "('ty, 'v, 'ev, 'u, 'x) visitor"
  shows
   "(visitor (node_kind n) False = None \<longrightarrow>
       visitWithTypeInfo_enter visitor n args ti u = (ResUndefined, enter ti n, u))
    \<and> (visitor (node_kind n) False = Some fn
        \<and> fn n args (enter ti n) u = (ResUndefined, ti2, u2) \<longrightarrow>
       visitWithTypeInfo_enter visitor n args ti u = (ResUndefined, ti2, u2))
    \<and> (visitor (node_kind n) False = Some fn
        \<and> fn n args (enter ti n) u = (ResNode m, ti2, u2) \<longrightarrow>
       visitWithTypeInfo_enter visitor n args ti u = (ResNode m, enter (leave ti2 n) m, u2))
    \<and> (visitor (node_kind n) False = Some fn \<and> fn n args (enter ti n) u = (r, ti2, u2)
        \<and> (r = ResFalse \<or> r = ResBreak \<or> r = ResNull) \<longrightarrow>
       visitWithTypeInfo_enter visitor n args ti u = (r, leave ti2 n, u2))
    \<and> (visitor (node_kind n) False = Some fn \<and> fn n args (enter ti n) u = (r, enter ti n, u2)
        \<and> (r = ResFalse \<or> r = ResBreak \<or> r = ResNull) \<longrightarrow>
       (case visitWithTypeInfo_enter visitor n args ti u of (_, ti3, _) \<Rightarrow>
          typeStack ti3 = typeStack ti \<and> parentTypeStack ti3 = parentTypeStack ti
          \<and> inputTypeStack ti3 = inputTypeStack ti \<and> fieldDefStack ti3 = fieldDefStack ti
          \<and> defaultValueStack ti3 = defaultValueStack ti))
    \<and> (visitor (node_kind n) True = None \<longrightarrow>
       visitWithTypeInfo_leave visitor n args ti u = (ResUndefined, leave ti n, u))
    \<and> (visitor (node_kind n) True = Some fn' \<and> fn' n args ti u = (r', ti1', u1') \<longrightarrow>
       visitWithTypeInfo_leave visitor n args ti u = (r', leave ti1' n, u1'))"
proof (intro conjI impI)
  assume "visitor (node_kind n) False = None"
  then show "visitWithTypeInfo_enter visitor n args ti u = (ResUndefined, enter ti n, u)"
    by (simp add: visitWithTypeInfo_enter_def Let_def)
next
  assume "visitor (node_kind n) False = Some fn
          \<and> fn n args (enter ti n) u = (ResUndefined, ti2, u2)"
  then show "visitWithTypeInfo_enter visitor n args ti u = (ResUndefined, ti2, u2)"
    by (simp add: visitWithTypeInfo_enter_def Let_def)
next
  assume "visitor (node_kind n) False = Some fn
          \<and> fn n args (enter ti n) u = (ResNode m, ti2, u2)"
  then show "visitWithTypeInfo_enter visitor n args ti u
             = (ResNode m, enter (leave ti2 n) m, u2)"
    by (simp add: visitWithTypeInfo_enter_def Let_def isNode_def)
next
  assume "visitor (node_kind n) False = Some fn \<and> fn n args (enter ti n) u = (r, ti2, u2)
          \<and> (r = ResFalse \<or> r = ResBreak \<or> r = ResNull)"
  then show "visitWithTypeInfo_enter visitor n args ti u = (r, leave ti2 n, u2)"
    by (auto simp add: visitWithTypeInfo_enter_def Let_def isNode_def)
next
  assume "visitor (node_kind n) False = Some fn
          \<and> fn n args (enter ti n) u = (r, enter ti n, u2)
          \<and> (r = ResFalse \<or> r = ResBreak \<or> r = ResNull)"
  then show "case visitWithTypeInfo_enter visitor n args ti u of (_, ti3, _) \<Rightarrow>
          typeStack ti3 = typeStack ti \<and> parentTypeStack ti3 = parentTypeStack ti
          \<and> inputTypeStack ti3 = inputTypeStack ti \<and> fieldDefStack ti3 = fieldDefStack ti
          \<and> defaultValueStack ti3 = defaultValueStack ti"
    by (auto simp add: visitWithTypeInfo_enter_def Let_def isNode_def leave_enter_stacks)
next
  assume "visitor (node_kind n) True = None"
  then show "visitWithTypeInfo_leave visitor n args ti u = (ResUndefined, leave ti n, u)"
    by (simp add: visitWithTypeInfo_leave_def)
next
  assume "visitor (node_kind n) True = Some fn' \<and> fn' n args ti u = (r', ti1', u1')"
  then show "visitWithTypeInfo_leave visitor n args ti u = (r', leave ti1' n, u1')"
    by (simp add: visitWithTypeInfo_leave_def)
qed

text \<open>The theorem at work. The visitor \<open>demo_visitor\<close> answers \<open>false\<close> on entering the field
  \<open>f\<close>: the field is left again and the type stack is empty as before. The visitor
  \<open>demo_replacing_visitor\<close> answers the field \<open>f\<close> on entering the unknown field \<open>g\<close>
  below the type \<open>Q\<close>: \<open>g\<close> is left and \<open>f\<close> entered, so that the top of the type stack is
  the type \<open>S\<close> of \<open>f\<close> and the top of the field stack its definition, where entering
  \<open>g\<close> had pushed \<open>undefined\<close>.\<close>

theorem visitWithTypeInfo_order_witness:
  "demo_visitor (node_kind demo_field) False = Some (\<lambda>node args ti u. (ResFalse, ti, Suc u))
   \<and> visitWithTypeInfo_enter demo_visitor demo_field () (new_TypeInfo demo_schema None None) 0
       = (ResFalse,
          leave (enter (new_TypeInfo demo_schema None None) demo_field) demo_field,
          Suc 0)
   \<and> typeStack (leave (enter (new_TypeInfo demo_schema None None) demo_field) demo_field) = []
   \<and> demo_visitor (node_kind demo_field) True = Some (\<lambda>node args ti u. (ResUndefined, ti, Suc u))
   \<and> visitWithTypeInfo_leave demo_visitor demo_field ()
         (enter (new_TypeInfo demo_schema None None) demo_field) 0
       = (ResUndefined,
          leave (enter (new_TypeInfo demo_schema None None) demo_field) demo_field,
          Suc 0)
   \<and> demo_replacing_visitor (node_kind demo_unknown_field) False
       = Some (\<lambda>node args ti u. (ResNode demo_field, ti, Suc u))
   \<and> visitWithTypeInfo_enter demo_replacing_visitor demo_unknown_field ()
         (new_TypeInfo demo_schema None (Some DemoQ)) 0
       = (ResNode demo_field,
          enter (leave (enter (new_TypeInfo demo_schema None (Some DemoQ)) demo_unknown_field)
                   demo_unknown_field) demo_field,
          Suc 0)
   \<and> typeStack (enter (new_TypeInfo demo_schema None (Some DemoQ)) demo_unknown_field)
       = [Val DemoQ, Undefined]
   \<and> typeStack (fst (snd (visitWithTypeInfo_enter demo_replacing_visitor demo_unknown_field ()
         (new_TypeInfo demo_schema None (Some DemoQ)) 0)))
       = [Val DemoQ, Val DemoS]
   \<and> fieldDefStack (fst (snd (visitWithTypeInfo_enter demo_replacing_visitor demo_unknown_field ()
         (new_TypeInfo demo_schema None (Some DemoQ)) 0)))
       = [Val \<lparr>fld_name = ''f'', fld_type = DemoS,
                fld_args = [\<lparr>arg_name = ''a'', arg_type = DemoS,
                              arg_defaultValue = Undefined\<rparr>]\<rparr>]"
proof -
  let ?t0 = "new_TypeInfo demo_schema None None"
  let ?tq = "new_TypeInfo demo_schema None (Some DemoQ)"
  have k: "node_kind demo_field = FIELD" "node_kind demo_unknown_field = FIELD"
    by (simp_all add: demo_field_def demo_unknown_field_def)
  have v1: "demo_visitor (node_kind demo_field) False
            = Some (\<lambda>node args ti u. (ResFalse, ti, Suc u))"
    and v2: "demo_visitor (node_kind demo_field) True
            = Some (\<lambda>node args ti u. (ResUndefined, ti, Suc u))"
    and v3: "demo_replacing_visitor (node_kind demo_unknown_field) False
            = Some (\<lambda>node args ti u. (ResNode demo_field, ti, Suc u))"
    by (simp_all add: k demo_visitor_def demo_replacing_visitor_def)
  note a = visitWithTypeInfo_order
          [where visitor = demo_visitor and n = demo_field and args = "()" and ti = ?t0
             and u = 0 and fn = "\<lambda>node args ti u. (ResFalse, ti, Suc u)" and r = ResFalse
             and ?ti2.0 = "enter ?t0 demo_field" and ?u2.0 = "Suc 0"]
  note b = visitWithTypeInfo_order
          [where visitor = demo_replacing_visitor and n = demo_unknown_field and args = "()"
             and ti = ?tq and u = 0
             and fn = "\<lambda>node args ti u. (ResNode demo_field, ti, Suc u)"
             and m = demo_field
             and ?ti2.0 = "enter ?tq demo_unknown_field" and ?u2.0 = "Suc 0"]
  note c = visitWithTypeInfo_order
          [where visitor = demo_visitor and n = demo_field and args = "()"
             and ti = "enter ?t0 demo_field" and u = 0
             and fn' = "\<lambda>node args ti u. (ResUndefined, ti, Suc u)" and r' = ResUndefined
             and ti1' = "enter ?t0 demo_field" and u1' = "Suc 0"]
  have e1: "visitWithTypeInfo_enter demo_visitor demo_field () ?t0 0
            = (ResFalse, leave (enter ?t0 demo_field) demo_field, Suc 0)"
    using a v1 by simp
  have e2: "visitWithTypeInfo_leave demo_visitor demo_field () (enter ?t0 demo_field) 0
            = (ResUndefined, leave (enter ?t0 demo_field) demo_field, Suc 0)"
    using c v2 by simp
  have e3: "visitWithTypeInfo_enter demo_replacing_visitor demo_unknown_field () ?tq 0
            = (ResNode demo_field,
               enter (leave (enter ?tq demo_unknown_field) demo_unknown_field) demo_field,
               Suc 0)"
    using b v3 by simp
  have s1: "typeStack (leave (enter ?t0 demo_field) demo_field) = []"
    by (simp add: demo_field_def new_TypeInfo_def leave_def enter_def enter_Field_def
          getParentType_def push_def pop_def keep_if_def)
  have s2: "typeStack (enter ?tq demo_unknown_field) = [Val DemoQ, Undefined]"
    by (simp add: demo_unknown_field_def new_TypeInfo_def enter_def enter_Field_def
          getParentType_def push_def keep_if_def demo_schema_def getFieldDef_def Let_def)
  have s3: "typeStack (enter (leave (enter ?tq demo_unknown_field) demo_unknown_field)
              demo_field) = [Val DemoQ, Val DemoS]"
    by (simp add: demo_unknown_field_def demo_field_def new_TypeInfo_def enter_def leave_def
          enter_Field_def getParentType_def push_def pop_def keep_if_def demo_schema_def
          getFieldDef_def Let_def)
  have s4: "fieldDefStack (enter (leave (enter ?tq demo_unknown_field) demo_unknown_field)
              demo_field)
            = [Val \<lparr>fld_name = ''f'', fld_type = DemoS,
                     fld_args = [\<lparr>arg_name = ''a'', arg_type = DemoS,
                                   arg_defaultValue = Undefined\<rparr>]\<rparr>]"
    by (simp add: demo_unknown_field_def demo_field_def new_TypeInfo_def enter_def leave_def
          enter_Field_def getParentType_def push_def pop_def keep_if_def demo_schema_def
          getFieldDef_def Let_def)
  show ?thesis
    unfolding e3 using v1 v2 v3 e1 e2 s1 s2 s3 s4 by simp
qed


section \<open>Properties of getFragmentSpreads\<close>

lemma stack_order_sel_nested:
  "stack_order_sel s = concat (map stack_order (rev (nested_set s)))"
  by (cases s rule: stack_order_sel.cases) (simp_all add: nested_set_def)

lemma concat_rev_nested:
  "concat (map stack_order (rev (concat (map nested_set sels))))
   = concat (map stack_order_sel (rev sels))"
  by (induction sels) (simp_all add: stack_order_sel_nested rev_concat rev_map)

text \<open>The loop, started with any stack and any spreads collected so far.\<close>

lemma spreads_while_eq:
  "spreads_while setsToVisit spreads = spreads @ concat (map stack_order (rev setsToVisit))"
proof (induction setsToVisit spreads rule: spreads_while.induct)
  case (1 setsToVisit spreads)
  show ?case
  proof (cases setsToVisit rule: rev_cases)
    case Nil
    then show ?thesis by (subst spreads_while.simps) simp
  next
    case (snoc rest set)
    obtain sels where set: "set = SelectionSet sels" by (cases set)
    let ?spreads' = "spreads @ concat (map direct_spread sels)"
    let ?sets' = "rest @ concat (map nested_set sels)"
    have f: "fold for_selection (selections set) (spreads, pop setsToVisit)
             = (?spreads', ?sets')"
      using snoc set by (simp add: fold_for_selection pop_def)
    have "spreads_while setsToVisit spreads = spreads_while ?sets' ?spreads'"
      using snoc f by (subst spreads_while.simps) simp
    also have "\<dots> = ?spreads' @ concat (map stack_order (rev ?sets'))"
    proof (rule "1.IH")
      show "length setsToVisit \<noteq> 0" using snoc by simp
      show "set = last setsToVisit" using snoc by simp
      show "(?spreads', ?sets')
            = fold for_selection (selections set) (spreads, pop setsToVisit)"
        using f by simp
      show "(?spreads', ?sets') = (?spreads', ?sets')" ..
    qed
    also have "\<dots> = spreads @ concat (map stack_order (rev setsToVisit))"
      using snoc set by (simp add: concat_rev_nested)
    finally show ?thesis .
  qed
qed

lemma spreads_while_single: "spreads_while [node] [] = stack_order node"
  by (simp add: spreads_while_eq)

lemma mset_concat_rev: "mset (concat (map f (rev xs))) = mset (concat (map f xs))"
  by (induction xs) simp_all

lemma mset_stack_order:
  "mset (stack_order_sel s) + mset (direct_spread s) = mset (spreads_in_selection s)"
  "mset (stack_order ss) = mset (spreads_in_set ss)"
proof (induction s and ss rule: stack_order_sel_stack_order.induct)
  case (5 sels)
  have "mset (concat (map stack_order_sel sels)) + mset (concat (map direct_spread sels))
        = mset (concat (map spreads_in_selection sels))"
    using 5 by (induction sels) (simp_all add: ac_simps)
  then show ?case by (simp add: mset_concat_rev add.commute)
qed (simp_all add: direct_spread_def)

lemma getFragmentSpreads_result:
  "fragmentSpreads_ok ctx \<Longrightarrow> fst (getFragmentSpreads ctx node) = stack_order node"
  by (auto simp: getFragmentSpreads_def fragmentSpreads_ok_def spreads_while_single Let_def
           split: option.splits)

lemma getFragmentSpreads_ok:
  "fragmentSpreads_ok ctx \<Longrightarrow> fragmentSpreads_ok (snd (getFragmentSpreads ctx node))"
  by (auto simp: getFragmentSpreads_def fragmentSpreads_ok_def Let_def split: option.splits)

lemma getFragmentSpreads_again:
  "getFragmentSpreads (snd (getFragmentSpreads ctx node)) node
   = (fst (getFragmentSpreads ctx node), snd (getFragmentSpreads ctx node))"
  by (auto simp: getFragmentSpreads_def Let_def split: option.splits)

lemma getFragmentSpreads_context:
  "fragmentSpreads_ok ctx \<Longrightarrow>
     snd (getFragmentSpreads ctx node)
     = ctx\<lparr>fragmentSpreads := (fragmentSpreads ctx)(node \<mapsto> stack_order node)\<rparr>"
proof (cases "fragmentSpreads ctx node")
  case None
  then show ?thesis
    by (simp add: getFragmentSpreads_def Let_def spreads_while_single)
next
  case (Some spreads)
  assume "fragmentSpreads_ok ctx"
  then have "spreads = stack_order node"
    using Some by (simp add: fragmentSpreads_ok_def spreads_while_single)
  then have "(fragmentSpreads ctx)(node \<mapsto> stack_order node) = fragmentSpreads ctx"
    using Some by (simp add: fun_upd_idem)
  then show ?thesis
    using Some by (simp add: getFragmentSpreads_def)
qed

text \<open>
  C9, as the code has it. In a context whose cache holds what the loop computes (the new
  context is one, and \<open>getFragmentSpreads\<close> keeps it so), \<open>getFragmentSpreads(s)\<close> returns
  the fragment spreads nested anywhere under \<open>s\<close>, each as often as it occurs there and none
  from the fragments the spreads name. The sequence is \<open>stack_order s\<close>: the spreads that are
  selections of \<open>s\<close> itself first, in the order of the selections, then those of the nested
  selection sets, the last nested set first, each set in the same manner. The context
  returned is the one given with the sequence stored under \<open>s\<close> in the cache of fragment
  spreads, and nothing else changed; a second call with the same node returns the same
  sequence and leaves the context as it is.
\<close>

theorem getFragmentSpreads_stack_order:
  "fragmentSpreads_ok ctx \<Longrightarrow>
     mset (fst (getFragmentSpreads ctx s)) = mset (spreads_in_set s)
     \<and> fst (getFragmentSpreads ctx s) = stack_order s
     \<and> snd (getFragmentSpreads ctx s)
         = ctx\<lparr>fragmentSpreads := (fragmentSpreads ctx)(s \<mapsto> stack_order s)\<rparr>
     \<and> fragmentSpreads (snd (getFragmentSpreads ctx s)) s
         = Some (fst (getFragmentSpreads ctx s))
     \<and> fragmentSpreads_ok (snd (getFragmentSpreads ctx s))
     \<and> getFragmentSpreads (snd (getFragmentSpreads ctx s)) s
         = (fst (getFragmentSpreads ctx s), snd (getFragmentSpreads ctx s))"
proof (intro conjI)
  assume ok: "fragmentSpreads_ok ctx"
  show "mset (fst (getFragmentSpreads ctx s)) = mset (spreads_in_set s)"
    using ok by (simp add: getFragmentSpreads_result mset_stack_order)
  show "fst (getFragmentSpreads ctx s) = stack_order s"
    using ok by (rule getFragmentSpreads_result)
  show "snd (getFragmentSpreads ctx s)
        = ctx\<lparr>fragmentSpreads := (fragmentSpreads ctx)(s \<mapsto> stack_order s)\<rparr>"
    using ok by (rule getFragmentSpreads_context)
  show "fragmentSpreads (snd (getFragmentSpreads ctx s)) s
        = Some (fst (getFragmentSpreads ctx s))"
    using ok by (simp add: getFragmentSpreads_context getFragmentSpreads_result)
  show "fragmentSpreads_ok (snd (getFragmentSpreads ctx s))"
    using ok by (rule getFragmentSpreads_ok)
  show "getFragmentSpreads (snd (getFragmentSpreads ctx s)) s
        = (fst (getFragmentSpreads ctx s), snd (getFragmentSpreads ctx s))"
    by (rule getFragmentSpreads_again)
qed

text \<open>The theorem on \<open>{ a { ...A } ...B b { ...C } }\<close> in a new context: the spreads come
  as \<open>B\<close>, \<open>C\<close>, \<open>A\<close>, and the cache, empty before, holds that sequence for the set.\<close>

theorem getFragmentSpreads_stack_order_witness:
  "fragmentSpreads_ok (new_ASTValidationContext demo_document)
   \<and> fragmentSpreads (new_ASTValidationContext demo_document) demo_set = None
   \<and> fst (getFragmentSpreads (new_ASTValidationContext demo_document) demo_set)
       = [demo_spread ''B'', demo_spread ''C'', demo_spread ''A'']
   \<and> fragmentSpreads
         (snd (getFragmentSpreads (new_ASTValidationContext demo_document) demo_set)) demo_set
       = Some [demo_spread ''B'', demo_spread ''C'', demo_spread ''A'']
   \<and> fst (getFragmentSpreads
         (snd (getFragmentSpreads (new_ASTValidationContext demo_document) demo_set)) demo_set)
       = [demo_spread ''B'', demo_spread ''C'', demo_spread ''A'']
   \<and> mset (spreads_in_set demo_set)
       = mset [demo_spread ''B'', demo_spread ''C'', demo_spread ''A'']"
proof -
  have ok: "fragmentSpreads_ok (new_ASTValidationContext demo_document)"
    by (simp add: fragmentSpreads_ok_def new_ASTValidationContext_def)
  have e: "fragmentSpreads (new_ASTValidationContext demo_document) demo_set = None"
    by (simp add: new_ASTValidationContext_def)
  have so: "stack_order demo_set = [demo_spread ''B'', demo_spread ''C'', demo_spread ''A'']"
    by (simp add: demo_set_def field_with_def direct_spread_def)
  note t = getFragmentSpreads_stack_order [OF ok, of demo_set]
  have r: "fst (getFragmentSpreads (new_ASTValidationContext demo_document) demo_set)
           = [demo_spread ''B'', demo_spread ''C'', demo_spread ''A'']"
    using t so by simp
  have c: "fragmentSpreads
             (snd (getFragmentSpreads (new_ASTValidationContext demo_document) demo_set))
             demo_set
           = Some [demo_spread ''B'', demo_spread ''C'', demo_spread ''A'']"
    using t r by metis
  have a: "fst (getFragmentSpreads
             (snd (getFragmentSpreads (new_ASTValidationContext demo_document) demo_set))
             demo_set)
           = [demo_spread ''B'', demo_spread ''C'', demo_spread ''A'']"
    using t r by (metis fst_conv)
  have m: "mset (spreads_in_set demo_set)
           = mset [demo_spread ''B'', demo_spread ''C'', demo_spread ''A'']"
    using t r by metis
  show ?thesis using ok e r c a m by blast
qed

text \<open>
  C9, as the specification words it: the sequence returned is the depth-first order of the
  selection tree, \<open>spreads_in_set\<close>. It is not: for \<open>{ a { ...A } ...B b { ...C } }\<close> the
  tree has the spreads in the order \<open>A\<close>, \<open>B\<close>, \<open>C\<close>, and the function returns \<open>B\<close>,
  \<open>C\<close>, \<open>A\<close>.
\<close>

theorem getFragmentSpreads_document_order_counterexample:
  "spreads_in_set demo_set = [demo_spread ''A'', demo_spread ''B'', demo_spread ''C'']
   \<and> fst (getFragmentSpreads (new_ASTValidationContext demo_document) demo_set)
       = [demo_spread ''B'', demo_spread ''C'', demo_spread ''A'']
   \<and> fst (getFragmentSpreads (new_ASTValidationContext demo_document) demo_set)
       \<noteq> spreads_in_set demo_set"
proof -
  have d: "spreads_in_set demo_set = [demo_spread ''A'', demo_spread ''B'', demo_spread ''C'']"
    by (simp add: demo_set_def field_with_def)
  have r: "fst (getFragmentSpreads (new_ASTValidationContext demo_document) demo_set)
           = [demo_spread ''B'', demo_spread ''C'', demo_spread ''A'']"
    by (simp add: getFragmentSpreads_def new_ASTValidationContext_def Let_def
          spreads_while_single demo_set_def field_with_def direct_spread_def)
  have "demo_spread ''B'' \<noteq> demo_spread ''A''"
    by (simp add: demo_spread_def)
  then show ?thesis using d r by simp
qed


section \<open>Properties of the two rules\<close>

lemma defName_shown:
  "\<not> isExecutableDefinitionNode d \<Longrightarrow> defName d = Inr (shown_name d)"
  by (cases d) (simp_all add: defName_def isExecutableDefinitionNode_def)

lemma for_definitions_eq:
  "for_definitions ds ctx =
     Inr (ctx\<lparr>reported := reported ctx
            @ map not_executable_error (filter (\<lambda>d. \<not> isExecutableDefinitionNode d) ds)\<rparr>)"
  by (induction ds arbitrary: ctx)
     (simp_all add: defName_shown reportError_def not_executable_error_def)

text \<open>
  C5. For every document the rule does not fail, answers \<open>false\<close>, and reports, after what
  was reported before, one error for each top-level definition that is neither an operation nor
  a fragment definition, in the order of the document: the error is attached to the
  definition and names it, \<open>schema\<close> for a schema definition or extension and the quoted name
  otherwise. When every definition is an operation or a fragment, nothing is reported.
\<close>

theorem ExecutableDefinitionsRule_reports:
  "ExecutableDefinitionsRule_Document doc ctx =
     Inr (ResFalse,
          ctx\<lparr>reported := reported ctx
                @ map not_executable_error
                    (filter (\<lambda>d. \<not> isExecutableDefinitionNode d) (definitions doc))\<rparr>)
   \<and> (list_all isExecutableDefinitionNode (definitions doc) \<longrightarrow>
        ExecutableDefinitionsRule_Document doc ctx = Inr (ResFalse, ctx))"
proof -
  have "list_all isExecutableDefinitionNode ds \<Longrightarrow>
        filter (\<lambda>d. \<not> isExecutableDefinitionNode d) ds = []" for ds
    by (induction ds) simp_all
  then show ?thesis
    by (simp add: ExecutableDefinitionsRule_Document_def for_definitions_eq)
qed

theorem ExecutableDefinitionsRule_reports_witness:
  "map message
     (reported (snd (projr (ExecutableDefinitionsRule_Document demo_document
                              (new_ASTValidationContext demo_document)))))
     = [''The '' @ [dquote] @ ''S'' @ [dquote] @ '' definition is not executable.'',
        ''The schema definition is not executable.'']
   \<and> list_all isExecutableDefinitionNode
        [OperationDefinitionD demo_operation, FragmentDefinitionD (fragment_on ''C'' [])]
   \<and> ExecutableDefinitionsRule_Document
        (Document [OperationDefinitionD demo_operation, FragmentDefinitionD (fragment_on ''C'' [])])
        (new_ASTValidationContext demo_document)
       = Inr (ResFalse, new_ASTValidationContext demo_document)"
  using ExecutableDefinitionsRule_reports
          [of demo_document "new_ASTValidationContext demo_document"]
        ExecutableDefinitionsRule_reports
          [of "Document [OperationDefinitionD demo_operation,
                         FragmentDefinitionD (fragment_on ''C'' [])]"
              "new_ASTValidationContext demo_document"]
  by (simp add: demo_document_def isExecutableDefinitionNode_def not_executable_error_def
        new_ASTValidationContext_def)

text \<open>
  C6. For every schema and every variable definition, the rule reports an error exactly when
  \<open>typeFromAST\<close> resolves the definition's type to a type of the schema that is not an input
  type. It then reports that one error and no other: its message is
  \<open>Variable "$name" cannot be non-input type "printed type".\<close> and its node is the type node
  of the variable definition. Otherwise the context is left as it is.
\<close>

theorem VariablesAreInputTypesRule_reports:
  "reported (snd (VariablesAreInputTypesRule_VariableDefinition print node ctx)) =
     reported ctx @
       (if (\<exists>t. typeFromAST (getSchema ctx) (vd_type node) = Val t
                \<and> \<not> isInputType (getSchema ctx) t)
        then [GraphQLError
                (''Variable '' @ [dquote] @ ''$'' @ name_value (variable_name (vd_variable node))
                   @ [dquote] @ '' cannot be non-input type '' @ [dquote]
                   @ print (TypeN (vd_type node)) @ [dquote] @ ''.'')
                (TypeN (vd_type node))]
        else [])
   \<and> (\<not> (\<exists>t. typeFromAST (getSchema ctx) (vd_type node) = Val t
                \<and> \<not> isInputType (getSchema ctx) t) \<longrightarrow>
        snd (VariablesAreInputTypesRule_VariableDefinition print node ctx) = ctx)"
  by (auto simp: VariablesAreInputTypesRule_VariableDefinition_def Let_def reportError_def
        non_input_message_def split: nullable.splits)

theorem VariablesAreInputTypesRule_reports_witness:
  "reported (snd (VariablesAreInputTypesRule_VariableDefinition demo_print demo_variable_x
       (new_ValidationContext demo_schema demo_document (new_TypeInfo demo_schema None None))))
     = [GraphQLError
          (''Variable '' @ [dquote] @ ''$x'' @ [dquote] @ '' cannot be non-input type ''
             @ [dquote] @ ''Q'' @ [dquote] @ ''.'')
          (TypeN (NamedTypeT (NamedType (Name ''Q''))))]
   \<and> snd (VariablesAreInputTypesRule_VariableDefinition demo_print demo_variable_y
       (new_ValidationContext demo_schema demo_document (new_TypeInfo demo_schema None None)))
     = new_ValidationContext demo_schema demo_document (new_TypeInfo demo_schema None None)"
  using VariablesAreInputTypesRule_reports
          [of demo_print demo_variable_x
              "new_ValidationContext demo_schema demo_document
                 (new_TypeInfo demo_schema None None)"]
        VariablesAreInputTypesRule_reports
          [of demo_print demo_variable_y
              "new_ValidationContext demo_schema demo_document
                 (new_TypeInfo demo_schema None None)"]
  by (simp add: demo_variable_x_def demo_variable_y_def demo_schema_def demo_print_def
        getSchema_def new_ValidationContext_def)


section \<open>Properties of getRecursivelyReferencedFragments\<close>

lemma fold_add_fragment_lookup:
  "fmlookup (fold add_fragment ds table) n = Some f \<Longrightarrow>
     fmlookup table n = Some f
     \<or> (name_value (frag_name f) = n \<and> FragmentDefinitionD f \<in> set ds)"
proof (induction ds arbitrary: table)
  case Nil
  then show ?case by simp
next
  case (Cons d ds)
  from Cons.IH [OF Cons.prems [simplified]]
  show ?case by (auto simp: add_fragment_def split: definition_node.splits if_splits)
qed

lemma fragments_of_lookup:
  "fmlookup (fragments_of doc) n = Some f \<Longrightarrow>
     name_value (frag_name f) = n \<and> FragmentDefinitionD f \<in> set (definitions doc)"
  using fold_add_fragment_lookup [of "definitions doc" fmempty n f]
  by (simp add: fragments_of_def)

text \<open>The table the code builds resolves a name as the document does: to the last
  fragment definition of that name.\<close>

lemma find_append_cases:
  "find P (xs @ ys) = (case find P xs of Some x \<Rightarrow> Some x | None \<Rightarrow> find P ys)"
  by (induction xs) simp_all

lemma add_fragment_cases:
  "fragment_definition_of d = [] \<and> add_fragment d table = table
   \<or> (\<exists>fd. d = FragmentDefinitionD fd \<and> fragment_definition_of d = [fd]
         \<and> add_fragment d table = fmupd (name_value (frag_name fd)) fd table)"
  by (cases d) (simp_all add: fragment_definition_of_def add_fragment_def)

lemma fold_add_fragment_named:
  "fmlookup (fold add_fragment ds table) n
   = (case find (\<lambda>fd. name_value (frag_name fd) = n)
             (rev (concat (map fragment_definition_of ds))) of
        Some f \<Rightarrow> Some f
      | None \<Rightarrow> fmlookup table n)"
proof (induction ds arbitrary: table)
  case Nil
  then show ?case by simp
next
  case (Cons d ds)
  show ?case
    using add_fragment_cases [of d table]
    by (auto simp: Cons.IH find_append_cases split: option.splits)
qed

lemma fragments_of_named: "fmlookup (fragments_of doc) = fragment_named doc"
  by (rule ext)
     (simp add: fragments_of_def fragment_named_def fragment_definitions_def
        fold_add_fragment_named split: option.splits)

lemma fragment_definitions_set:
  "f \<in> set (fragment_definitions doc) \<longleftrightarrow> FragmentDefinitionD f \<in> set (definitions doc)"
proof -
  have "f \<in> set (fragment_definition_of d) \<longleftrightarrow> d = FragmentDefinitionD f" for d
    by (cases d) (auto simp: fragment_definition_of_def)
  then show ?thesis by (auto simp: fragment_definitions_def)
qed

lemma fragment_named_distinct:
  assumes "distinct (map (\<lambda>f. name_value (frag_name f)) (fragment_definitions doc))"
  shows "fragment_named doc n = Some f
         \<longleftrightarrow> FragmentDefinitionD f \<in> set (definitions doc) \<and> name_value (frag_name f) = n"
proof
  assume "fragment_named doc n = Some f"
  then show "FragmentDefinitionD f \<in> set (definitions doc) \<and> name_value (frag_name f) = n"
    unfolding fragment_named_def find_Some_iff
    by (metis fragment_definitions_set nth_mem set_rev)
next
  assume a: "FragmentDefinitionD f \<in> set (definitions doc) \<and> name_value (frag_name f) = n"
  then have m: "f \<in> set (rev (fragment_definitions doc))"
    by (simp add: fragment_definitions_set)
  then obtain g where g: "fragment_named doc n = Some g"
    unfolding fragment_named_def using a by (cases "find (\<lambda>fd. name_value (frag_name fd) = n)
      (rev (fragment_definitions doc))") (auto simp: find_None_iff)
  then have "g \<in> set (fragment_definitions doc)" "name_value (frag_name g) = n"
    unfolding fragment_named_def find_Some_iff by (metis nth_mem set_rev)+
  moreover have "inj_on (\<lambda>f. name_value (frag_name f)) (set (fragment_definitions doc))"
    using assms by (simp add: distinct_map)
  ultimately have "g = f" using m a by (auto dest: inj_onD)
  then show "fragment_named doc n = Some f" using g by simp
qed

lemma ctx_ok_table: "ctx_ok ctx \<Longrightarrow> fragment_table ctx = fragments_of (ast ctx)"
  by (auto simp: ctx_ok_def fragment_table_def getDocument_def)

lemma getFragment_ok:
  "ctx_ok ctx \<Longrightarrow> ctx_ok (snd (getFragment ctx name))"
  "ast (snd (getFragment ctx name)) = ast ctx"
  by (auto simp: getFragment_def ctx_ok_def fragmentSpreads_ok_def getDocument_def Let_def
           split: option.splits)

lemma getFragmentSpreads_ctx_ok:
  "ctx_ok ctx \<Longrightarrow> ctx_ok (snd (getFragmentSpreads ctx node))"
  "ast (snd (getFragmentSpreads ctx node)) = ast ctx"
  by (auto simp: getFragmentSpreads_def ctx_ok_def fragmentSpreads_ok_def Let_def
           split: option.splits)

lemma spread_names_stack_order:
  "(\<lambda>sp. name_value (spread_name sp)) ` set (stack_order ss) = spread_names ss"
  using mset_stack_order(2) [of ss] by (metis spread_names_def set_mset_mset)

text \<open>
  The invariant of the loops, for the table \<open>T\<close> of the document \<open>doc\<close> and the selection
  set \<open>root\<close> of the operation; \<open>current\<close> holds the set whose spreads are being worked
  on, if any.
\<close>

definition rrf_inv ::
  "document_node \<Rightarrow> selection_set_node \<Rightarrow> selection_set_node set \<Rightarrow> 'a rrf_state \<Rightarrow> bool" where
  "rrf_inv doc root current st =
    (case st of (ctx, frs, col, stack) \<Rightarrow>
       ctx_ok ctx \<and> ast ctx = doc
       \<and> col \<subseteq> reachable_names (fmlookup (fragments_of doc)) root
       \<and> set frs = {f. \<exists>n\<in>col. fmlookup (fragments_of doc) n = Some f}
       \<and> distinct (map (\<lambda>f. name_value (frag_name f)) frs)
       \<and> (\<forall>S\<in>set stack. spread_names S \<subseteq> reachable_names (fmlookup (fragments_of doc)) root)
       \<and> (\<forall>S. S = root \<or> (\<exists>f\<in>set frs. S = frag_selectionSet f) \<longrightarrow>
               S \<in> set stack \<or> S \<in> current \<or> spread_names S \<subseteq> col))"

lemma rrf_invI:
  "ctx_ok ctx \<Longrightarrow> ast ctx = doc \<Longrightarrow>
   col \<subseteq> reachable_names (fmlookup (fragments_of doc)) root \<Longrightarrow>
   set frs = {f. \<exists>n\<in>col. fmlookup (fragments_of doc) n = Some f} \<Longrightarrow>
   distinct (map (\<lambda>f. name_value (frag_name f)) frs) \<Longrightarrow>
   \<forall>S\<in>set stack. spread_names S \<subseteq> reachable_names (fmlookup (fragments_of doc)) root \<Longrightarrow>
   \<forall>S. S = root \<or> (\<exists>f\<in>set frs. S = frag_selectionSet f) \<longrightarrow>
               S \<in> set stack \<or> S \<in> current \<or> spread_names S \<subseteq> col \<Longrightarrow>
   rrf_inv doc root current (ctx, frs, col, stack)"
  by (simp add: rrf_inv_def)

lemma rrf_invD:
  assumes "rrf_inv doc root current (ctx, frs, col, stack)"
  shows "ctx_ok ctx" and "ast ctx = doc"
    and "col \<subseteq> reachable_names (fmlookup (fragments_of doc)) root"
    and "set frs = {f. \<exists>n\<in>col. fmlookup (fragments_of doc) n = Some f}"
    and "distinct (map (\<lambda>f. name_value (frag_name f)) frs)"
    and "\<forall>S\<in>set stack. spread_names S \<subseteq> reachable_names (fmlookup (fragments_of doc)) root"
    and "\<forall>S. S = root \<or> (\<exists>f\<in>set frs. S = frag_selectionSet f) \<longrightarrow>
               S \<in> set stack \<or> S \<in> current \<or> spread_names S \<subseteq> col"
  using assms by (simp_all add: rrf_inv_def)

lemma for_spread_inv:
  assumes inv: "rrf_inv doc root current st"
    and reach: "name_value (spread_name sp) \<in> reachable_names (fmlookup (fragments_of doc)) root"
  shows "rrf_inv doc root current (for_spread sp st)"
    and "name_value (spread_name sp) \<in> fst (snd (snd (for_spread sp st)))"
    and "fst (snd (snd st)) \<subseteq> fst (snd (snd (for_spread sp st)))"
proof -
  obtain ctx frs col stack where st: "st = (ctx, frs, col, stack)" by (cases st) auto
  let ?T = "fragments_of doc"
  let ?R = "reachable_names (fmlookup ?T) root"
  let ?n = "name_value (spread_name sp)"
  from inv st have ok: "ctx_ok ctx" and doc: "ast ctx = doc" and colR: "col \<subseteq> ?R"
    and frs: "set frs = {f. \<exists>n\<in>col. fmlookup ?T n = Some f}"
    and dist: "distinct (map (\<lambda>f. name_value (frag_name f)) frs)"
    and stackR: "\<forall>S\<in>set stack. spread_names S \<subseteq> ?R"
    and closed: "\<forall>S. S = root \<or> (\<exists>f\<in>set frs. S = frag_selectionSet f) \<longrightarrow>
               S \<in> set stack \<or> S \<in> current \<or> spread_names S \<subseteq> col"
    by (simp_all add: rrf_inv_def)
  have concl: "rrf_inv doc root current (for_spread sp st)
      \<and> ?n \<in> fst (snd (snd (for_spread sp st)))
      \<and> fst (snd (snd st)) \<subseteq> fst (snd (snd (for_spread sp st)))"
  proof (cases "?n \<in> col")
    case True
    then show ?thesis using inv by (simp add: for_spread_def st)
  next
    case False
    obtain r ctx' where g: "getFragment ctx ?n = (r, ctx')" by (cases "getFragment ctx ?n")
    have ok': "ctx_ok ctx'" and doc': "ast ctx' = doc"
      using getFragment_ok [of ctx ?n] ok doc g by simp_all
    have r: "r = fmlookup ?T ?n"
      using getFragment_table(2) [of ctx ?n] g ctx_ok_table [OF ok] doc by simp
    have colR': "insert ?n col \<subseteq> ?R" using colR reach by simp
    show ?thesis
    proof (cases r)
      case None
      have eq: "for_spread sp (ctx, frs, col, stack) = (ctx', frs, insert ?n col, stack)"
        using False g None by (simp add: for_spread_def)
      have a: "set frs = {f. \<exists>n\<in>insert ?n col. fmlookup ?T n = Some f}"
        using frs r None by auto
      have d: "\<forall>S. S = root \<or> (\<exists>f\<in>set frs. S = frag_selectionSet f) \<longrightarrow>
               S \<in> set stack \<or> S \<in> current \<or> spread_names S \<subseteq> insert ?n col"
        using closed by blast
      show ?thesis
        using rrf_invI [OF ok' doc' colR' a dist stackR d] unfolding st eq by auto
    next
      case (Some f)
      have eq: "for_spread sp (ctx, frs, col, stack)
                = (ctx', frs @ [f], insert ?n col, stack @ [frag_selectionSet f])"
        using False g Some by (simp add: for_spread_def push_def)
      have fn: "name_value (frag_name f) = ?n"
        using fragments_of_lookup [of doc ?n f] r Some by simp
      have names_col: "name_value (frag_name f') \<in> col" if "f' \<in> set frs" for f'
        using that frs fragments_of_lookup [of doc _ f'] by auto
      have a: "set (frs @ [f]) = {f. \<exists>n\<in>insert ?n col. fmlookup ?T n = Some f}"
        using frs r Some by auto
      have b: "distinct (map (\<lambda>f. name_value (frag_name f)) (frs @ [f]))"
        using dist fn False names_col by auto
      have lk: "fmlookup ?T ?n = Some f" using r Some by simp
      have "spread_names (frag_selectionSet f) \<subseteq> ?R"
        using reachable_names.via [OF reach lk] by blast
      then have c: "\<forall>S\<in>set (stack @ [frag_selectionSet f]). spread_names S \<subseteq> ?R"
        using stackR by simp
      have d: "\<forall>S. S = root \<or> (\<exists>f'\<in>set (frs @ [f]). S = frag_selectionSet f') \<longrightarrow>
               S \<in> set (stack @ [frag_selectionSet f]) \<or> S \<in> current
               \<or> spread_names S \<subseteq> insert ?n col"
        using closed by auto
      show ?thesis
        using rrf_invI [OF ok' doc' colR' a b c d] unfolding st eq by auto
    qed
  qed
  from concl show "rrf_inv doc root current (for_spread sp st)" by blast
  from concl show "?n \<in> fst (snd (snd (for_spread sp st)))" by blast
  from concl show "fst (snd (snd st)) \<subseteq> fst (snd (snd (for_spread sp st)))" by blast
qed

lemma fold_for_spread_inv:
  assumes "rrf_inv doc root current st"
    and "\<forall>sp\<in>set sps. name_value (spread_name sp) \<in> reachable_names (fmlookup (fragments_of doc)) root"
  shows "rrf_inv doc root current (fold for_spread sps st)
     \<and> (\<lambda>sp. name_value (spread_name sp)) ` set sps
          \<subseteq> fst (snd (snd (fold for_spread sps st)))
     \<and> fst (snd (snd st)) \<subseteq> fst (snd (snd (fold for_spread sps st)))"
  using assms
proof (induction sps arbitrary: st)
  case Nil
  then show ?case by simp
next
  case (Cons sp sps)
  have r: "name_value (spread_name sp) \<in> reachable_names (fmlookup (fragments_of doc)) root"
    using Cons.prems(2) by simp
  note step = for_spread_inv [OF Cons.prems(1) r]
  have "rrf_inv doc root current (fold for_spread sps (for_spread sp st))
     \<and> (\<lambda>sp. name_value (spread_name sp)) ` set sps
          \<subseteq> fst (snd (snd (fold for_spread sps (for_spread sp st))))
     \<and> fst (snd (snd (for_spread sp st)))
          \<subseteq> fst (snd (snd (fold for_spread sps (for_spread sp st))))"
    using Cons.IH [OF step(1)] Cons.prems(2) by simp
  then show ?case using step(2,3) by auto
qed

lemma rrf_inv_drop_current:
  assumes "rrf_inv doc root {P} st" and sub: "spread_names P \<subseteq> fst (snd (snd st))"
  shows "rrf_inv doc root {} st"
proof -
  obtain ctx frs col stack where st: "st = (ctx, frs, col, stack)" by (cases st) auto
  note d = rrf_invD [OF assms(1) [unfolded st]]
  have "\<forall>S. S = root \<or> (\<exists>f\<in>set frs. S = frag_selectionSet f) \<longrightarrow>
               S \<in> set stack \<or> S \<in> {} \<or> spread_names S \<subseteq> col"
    using d(7) sub unfolding st by auto
  then show ?thesis
    unfolding st by (rule rrf_invI [OF d(1-6)])
qed

lemma rrf_while_inv:
  "rrf_inv doc root {} st \<Longrightarrow>
     rrf_inv doc root {} (rrf_while st) \<and> snd (snd (snd (rrf_while st))) = []"
proof (induction st rule: rrf_while.induct)
  case (1 ctx frs col stack)
  show ?case
  proof (cases stack rule: rev_cases)
    case Nil
    then show ?thesis using "1.prems" by (subst (1 2) rrf_while.simps) simp
  next
    case (snoc rest P)
    obtain spreads ctx' where g: "getFragmentSpreads ctx P = (spreads, ctx')"
      by (cases "getFragmentSpreads ctx P")
    from "1.prems" have ok: "ctx_ok ctx" and doc: "ast ctx = doc"
      by (simp_all add: rrf_inv_def)
    have ok': "ctx_ok ctx'" and doc': "ast ctx' = doc"
      using getFragmentSpreads_ctx_ok [of ctx P] ok doc g by simp_all
    have sp: "spreads = stack_order P"
      using getFragmentSpreads_result [of ctx P] ok g by (simp add: ctx_ok_def)
    have PR: "spread_names P \<subseteq> reachable_names (fmlookup (fragments_of doc)) root"
      using "1.prems" snoc by (simp add: rrf_inv_def)
    let ?st1 = "(ctx', frs, col, pop stack)"
    let ?st2 = "fold for_spread spreads ?st1"
    note d = rrf_invD [OF "1.prems"]
    have st1: "pop stack = rest" using snoc by (simp add: pop_def)
    have "\<forall>S\<in>set rest. spread_names S \<subseteq> reachable_names (fmlookup (fragments_of doc)) root"
      using d(6) snoc by simp
    moreover have "\<forall>S. S = root \<or> (\<exists>f\<in>set frs. S = frag_selectionSet f) \<longrightarrow>
               S \<in> set rest \<or> S \<in> {P} \<or> spread_names S \<subseteq> col"
      using d(7) snoc by auto
    ultimately have inv1: "rrf_inv doc root {P} ?st1"
      unfolding st1 by (rule rrf_invI [OF ok' doc' d(3,4,5)])
    have names: "\<forall>sp\<in>set spreads.
        name_value (spread_name sp) \<in> reachable_names (fmlookup (fragments_of doc)) root"
      using PR spread_names_stack_order [of P] sp by auto
    note f = fold_for_spread_inv [OF inv1 names]
    have "spread_names P \<subseteq> fst (snd (snd ?st2))"
      using f spread_names_stack_order [of P] sp by simp
    then have inv2: "rrf_inv doc root {} ?st2"
      using rrf_inv_drop_current f by blast
    have unfold: "rrf_while (ctx, frs, col, stack) = rrf_while ?st2"
      using snoc g by (subst rrf_while.simps) simp
    have "rrf_inv doc root {} (rrf_while ?st2) \<and> snd (snd (snd (rrf_while ?st2))) = []"
    proof (rule "1.IH")
      show "length stack \<noteq> 0" using snoc by simp
      show "P = last stack" using snoc by simp
      show "(spreads, ctx') = getFragmentSpreads ctx P" using g by simp
      show "(spreads, ctx') = (spreads, ctx')" ..
      show "rrf_inv doc root {} ?st2" by (rule inv2)
    qed
    then show ?thesis using unfold by simp
  qed
qed

lemma rrf_inv_final:
  assumes "rrf_inv doc root {} (ctx, frs, col, [])"
  shows "set frs = {f. \<exists>n\<in>reachable_names (fmlookup (fragments_of doc)) root.
                        fmlookup (fragments_of doc) n = Some f}"
proof -
  let ?T = "fragments_of doc"
  from assms have colR: "col \<subseteq> reachable_names (fmlookup ?T) root"
    and frs: "set frs = {f. \<exists>n\<in>col. fmlookup ?T n = Some f}"
    and closed: "\<forall>S. S = root \<or> (\<exists>f\<in>set frs. S = frag_selectionSet f) \<longrightarrow>
                   spread_names S \<subseteq> col"
    by (simp_all add: rrf_inv_def)
  have "n \<in> col" if "n \<in> reachable_names (fmlookup ?T) root" for n
    using that
  proof (induction rule: reachable_names.induct)
    case (direct n)
    then show ?case using closed by blast
  next
    case (via n f m)
    then have "f \<in> set frs" using frs by blast
    then show ?case using closed via.hyps(3) by blast
  qed
  then have "col = reachable_names (fmlookup ?T) root" using colR by blast
  then show ?thesis using frs by simp
qed

lemma rrf_inv_init:
  "ctx_ok ctx \<Longrightarrow> rrf_inv (ast ctx) root {} (ctx, [], {}, [root])"
  by (auto simp: rrf_inv_def spread_names_def intro: reachable_names.direct)

lemma getRecursivelyReferencedFragments_spec:
  assumes ok: "ctx_ok ctx"
  shows "rrf_spec (ast ctx) operation (fst (getRecursivelyReferencedFragments ctx operation))"
    and "ctx_ok (snd (getRecursivelyReferencedFragments ctx operation))"
    and "ast (snd (getRecursivelyReferencedFragments ctx operation)) = ast ctx"
proof -
  let ?root = "op_selectionSet operation"
  let ?res = "rrf_while (ctx, [], {}, [?root])"
  obtain ctx' frs col stack where res: "?res = (ctx', frs, col, stack)" by (cases ?res) auto
  have "rrf_inv (ast ctx) ?root {} ?res \<and> snd (snd (snd ?res)) = []"
    by (rule rrf_while_inv [OF rrf_inv_init [OF ok]])
  then have inv: "rrf_inv (ast ctx) ?root {} (ctx', frs, col, [])"
    using res by auto
  have spec: "rrf_spec (ast ctx) operation frs"
    using rrf_inv_final [OF inv] inv
    by (simp add: rrf_spec_def reachable_fragments_def rrf_inv_def fragments_of_named)
  have ok': "ctx_ok ctx'" and doc': "ast ctx' = ast ctx"
    using inv by (simp_all add: rrf_inv_def)
  have upd: "ctx_ok (ctx'\<lparr>recursivelyReferencedFragments :=
                     (recursivelyReferencedFragments ctx')(operation \<mapsto> frs)\<rparr>)"
    using ok' doc' spec by (auto simp: ctx_ok_def fragmentSpreads_ok_def)
  show "rrf_spec (ast ctx) operation (fst (getRecursivelyReferencedFragments ctx operation))"
    using ok spec res
    by (auto simp: getRecursivelyReferencedFragments_def ctx_ok_def split: option.splits)
  show "ctx_ok (snd (getRecursivelyReferencedFragments ctx operation))"
    using ok upd res
    by (auto simp: getRecursivelyReferencedFragments_def split: option.splits)
  show "ast (snd (getRecursivelyReferencedFragments ctx operation)) = ast ctx"
    using doc' res
    by (auto simp: getRecursivelyReferencedFragments_def split: option.splits)
qed

text \<open>
  C8. \<open>getRecursivelyReferencedFragments\<close> is a total function: its loop was shown to end
  for every context, document and operation (each turn pops a set, and only a name of the
  fragment table that was not collected before can push one), so it also ends when fragments
  spread one another in a cycle. In a context whose caches hold what the methods put there
  (the new context is one, and the method keeps it so) the result holds exactly the fragment
  definitions of the document reached from the operation's selection set through spreads,
  where a name stands for the last fragment definition of the document that bears it: in a
  document whose fragment definitions have different names these are the fragment
  definitions of the document whose name is reached. No definition occurs twice in the
  result, and no two of them have the same name.
\<close>

theorem getRecursivelyReferencedFragments_reachable:
  "ctx_ok ctx \<Longrightarrow>
     set (fst (getRecursivelyReferencedFragments ctx operation))
       = reachable_fragments (ast ctx) operation
     \<and> (distinct (map (\<lambda>f. name_value (frag_name f)) (fragment_definitions (ast ctx))) \<longrightarrow>
          set (fst (getRecursivelyReferencedFragments ctx operation))
          = {f. FragmentDefinitionD f \<in> set (definitions (ast ctx))
                \<and> name_value (frag_name f)
                    \<in> reachable_names (fragment_named (ast ctx)) (op_selectionSet operation)})
     \<and> distinct (map (\<lambda>f. name_value (frag_name f))
          (fst (getRecursivelyReferencedFragments ctx operation)))
     \<and> distinct (fst (getRecursivelyReferencedFragments ctx operation))
     \<and> (\<forall>f\<in>set (fst (getRecursivelyReferencedFragments ctx operation)).
           FragmentDefinitionD f \<in> set (definitions (ast ctx)))
     \<and> ctx_ok (snd (getRecursivelyReferencedFragments ctx operation))"
proof -
  assume ok: "ctx_ok ctx"
  let ?frs = "fst (getRecursivelyReferencedFragments ctx operation)"
  note spec = getRecursivelyReferencedFragments_spec [OF ok, of operation]
  have s: "set ?frs = reachable_fragments (ast ctx) operation"
    and d: "distinct (map (\<lambda>f. name_value (frag_name f)) ?frs)"
    using spec(1) by (simp_all add: rrf_spec_def)
  have u: "set ?frs
          = {f. FragmentDefinitionD f \<in> set (definitions (ast ctx))
                \<and> name_value (frag_name f)
                    \<in> reachable_names (fragment_named (ast ctx)) (op_selectionSet operation)}"
    if "distinct (map (\<lambda>f. name_value (frag_name f)) (fragment_definitions (ast ctx)))"
    unfolding s reachable_fragments_def
    using fragment_named_distinct [OF that] by auto
  have "distinct ?frs" using d by (rule distinct_map [THEN iffD1, THEN conjunct1])
  moreover have "\<forall>f\<in>set ?frs. FragmentDefinitionD f \<in> set (definitions (ast ctx))"
    using s fragments_of_lookup [of "ast ctx"]
    by (auto simp: reachable_fragments_def fragments_of_named [symmetric])
  ultimately show ?thesis using s d u spec(2) by blast
qed

lemma demo_fragments_of:
  "fmlookup (fragments_of demo_document) n =
     (if n = ''C'' then Some (fragment_on ''C'' [leaf_field ''f''])
      else if n = ''B'' then Some (fragment_on ''B'' [FragmentSpreadS (demo_spread ''A'')])
      else if n = ''A'' then Some (fragment_on ''A'' [FragmentSpreadS (demo_spread ''B'')])
      else None)"
  by (simp add: fragments_of_def demo_document_def add_fragment_def fragment_on_def)

lemma demo_fragments_of_twice:
  "fmlookup (fragments_of demo_document_twice) n =
     (if n = ''A'' then Some (fragment_on ''A'' [leaf_field ''y'']) else None)"
  by (simp add: fragments_of_def demo_document_twice_def add_fragment_def fragment_on_def)

text \<open>The theorem on the document with the cycle between \<open>A\<close> and \<open>B\<close>, whose fragment
  definitions have different names, and on the document that defines \<open>A\<close> twice, where the
  result is the second definition.\<close>

theorem getRecursivelyReferencedFragments_reachable_witness:
  "ctx_ok (new_ASTValidationContext demo_document)
   \<and> distinct (map (\<lambda>f. name_value (frag_name f)) (fragment_definitions demo_document))
   \<and> fst (getRecursivelyReferencedFragments (new_ASTValidationContext demo_document)
            demo_operation)
       = [fragment_on ''B'' [FragmentSpreadS (demo_spread ''A'')],
          fragment_on ''C'' [leaf_field ''f''],
          fragment_on ''A'' [FragmentSpreadS (demo_spread ''B'')]]
   \<and> reachable_fragments demo_document demo_operation
       = {fragment_on ''A'' [FragmentSpreadS (demo_spread ''B'')],
          fragment_on ''B'' [FragmentSpreadS (demo_spread ''A'')],
          fragment_on ''C'' [leaf_field ''f'']}
   \<and> {f. FragmentDefinitionD f \<in> set (definitions demo_document)
          \<and> name_value (frag_name f)
              \<in> reachable_names (fragment_named demo_document) (op_selectionSet demo_operation)}
       = {fragment_on ''A'' [FragmentSpreadS (demo_spread ''B'')],
          fragment_on ''B'' [FragmentSpreadS (demo_spread ''A'')],
          fragment_on ''C'' [leaf_field ''f'']}
   \<and> ctx_ok (new_ASTValidationContext demo_document_twice)
   \<and> fst (getRecursivelyReferencedFragments (new_ASTValidationContext demo_document_twice)
            demo_operation_A)
       = [fragment_on ''A'' [leaf_field ''y'']]
   \<and> reachable_fragments demo_document_twice demo_operation_A
       = {fragment_on ''A'' [leaf_field ''y'']}"
proof -
  let ?ctx = "new_ASTValidationContext demo_document"
  let ?ctx2 = "new_ASTValidationContext demo_document_twice"
  have ok: "ctx_ok ?ctx" and ok2: "ctx_ok ?ctx2"
    by (simp_all add: ctx_ok_def fragmentSpreads_ok_def new_ASTValidationContext_def)
  have ast: "ast ?ctx = demo_document" "ast ?ctx2 = demo_document_twice"
    by (simp_all add: new_ASTValidationContext_def)
  have dn: "distinct (map (\<lambda>f. name_value (frag_name f)) (fragment_definitions demo_document))"
    by (simp add: fragment_definitions_def fragment_definition_of_def demo_document_def
          fragment_on_def)
  have sw: "spreads_while [ss] [] = stack_order ss" for ss
    by (rule spreads_while_single)
  have run: "fst (getRecursivelyReferencedFragments ?ctx demo_operation)
       = [fragment_on ''B'' [FragmentSpreadS (demo_spread ''A'')],
          fragment_on ''C'' [leaf_field ''f''],
          fragment_on ''A'' [FragmentSpreadS (demo_spread ''B'')]]"
    by (simp add: getRecursivelyReferencedFragments_def new_ASTValidationContext_def
          rrf_while.simps getFragmentSpreads_def sw for_spread_def getFragment_def
          getDocument_def demo_fragments_of demo_operation_def demo_set_def field_with_def
          direct_spread_def demo_spread_def fragment_on_def leaf_field_def push_def pop_def
          Let_def)
  have run2: "fst (getRecursivelyReferencedFragments ?ctx2 demo_operation_A)
       = [fragment_on ''A'' [leaf_field ''y'']]"
    by (simp add: getRecursivelyReferencedFragments_def new_ASTValidationContext_def
          rrf_while.simps getFragmentSpreads_def sw for_spread_def getFragment_def
          getDocument_def demo_fragments_of_twice demo_operation_A_def
          direct_spread_def demo_spread_def fragment_on_def leaf_field_def push_def pop_def
          Let_def)
  note t = getRecursivelyReferencedFragments_reachable [OF ok, of demo_operation,
             unfolded ast run]
  note t2 = getRecursivelyReferencedFragments_reachable [OF ok2, of demo_operation_A,
             unfolded ast run2]
  have r: "reachable_fragments demo_document demo_operation
       = {fragment_on ''A'' [FragmentSpreadS (demo_spread ''B'')],
          fragment_on ''B'' [FragmentSpreadS (demo_spread ''A'')],
          fragment_on ''C'' [leaf_field ''f'']}"
    using t by auto
  have q: "{f. FragmentDefinitionD f \<in> set (definitions demo_document)
          \<and> name_value (frag_name f)
              \<in> reachable_names (fragment_named demo_document) (op_selectionSet demo_operation)}
       = {fragment_on ''A'' [FragmentSpreadS (demo_spread ''B'')],
          fragment_on ''B'' [FragmentSpreadS (demo_spread ''A'')],
          fragment_on ''C'' [leaf_field ''f'']}"
    using t dn by auto
  have r2: "reachable_fragments demo_document_twice demo_operation_A
       = {fragment_on ''A'' [leaf_field ''y'']}"
    using t2 by auto
  show ?thesis using ok ok2 dn run run2 r q r2 by blast
qed


section \<open>Properties of mapAsyncIterator\<close>

lemma mapped_next_value:
  assumes "it_next iterator s = (Fulfilled (IterValue v), s1)"
    and "callback v = Fulfilled u"
  shows "mapped_next (mapAsyncIterator iterator callback rejectCallback) (s, calls)
         = (Fulfilled (IterValue u), (s1, calls @ [CallNext]))"
  using assms
  by (simp add: mapAsyncIterator_def then_map_def call_next_def mapResult_def map_then_def
        asyncMapValue_def iteratorResult_def)

lemma mapped_next_done:
  assumes "it_next iterator s = (Fulfilled (IterDone r), s1)"
  shows "mapped_next (mapAsyncIterator iterator callback rejectCallback) (s, calls)
         = (Fulfilled (IterDone r), (s1, calls @ [CallNext]))"
  using assms
  by (simp add: mapAsyncIterator_def then_map_def call_next_def mapResult_def)

lemma consume_nexts:
  assumes "yields iterator s vs r" and "\<forall>v\<in>set vs. callback v = Fulfilled (f v)"
  shows "fst (consume (mapAsyncIterator iterator callback rejectCallback)
                (replicate (Suc (length vs)) DoNext) (s, calls))
           = map (\<lambda>v. Fulfilled (IterValue (f v))) vs @ [Fulfilled (IterDone r)]
         \<and> snd (snd (consume (mapAsyncIterator iterator callback rejectCallback)
                (replicate (Suc (length vs)) DoNext) (s, calls)))
           = calls @ replicate (Suc (length vs)) CallNext"
  using assms
proof (induction vs arbitrary: s calls)
  case Nil
  obtain s1 where n: "it_next iterator s = (Fulfilled (IterDone r), s1)"
    using Nil.prems(1) by (cases "it_next iterator s") simp
  show ?case using mapped_next_done [OF n, of callback rejectCallback calls] by simp
next
  case (Cons v vs)
  obtain s1 where n: "it_next iterator s = (Fulfilled (IterValue v), s1)"
    using Cons.prems(1) by (cases "it_next iterator s") simp
  have y: "yields iterator s1 vs r" using Cons.prems(1) n by simp
  have c: "callback v = Fulfilled (f v)" and cs: "\<forall>v\<in>set vs. callback v = Fulfilled (f v)"
    using Cons.prems(2) by simp_all
  have step: "mapped_next (mapAsyncIterator iterator callback rejectCallback) (s, calls)
         = (Fulfilled (IterValue (f v)), (s1, calls @ [CallNext]))"
    using n c by (rule mapped_next_value)
  note ih = Cons.IH [OF y cs, of "calls @ [CallNext]"]
  show ?case using step ih
    by (simp add: split_beta replicate_append_same)
qed

text \<open>
  C3. When the source, from its state \<open>s\<close>, yields \<open>v0, ..., v(n-1)\<close> and then
  completes with a result \<open>{value: r, done: true}\<close>, and the callback returns \<open>f vi\<close> for each
  of these values, then \<open>n + 1\<close> successive \<open>next()\<close> calls on the mapped iterator settle as
  \<open>{value: f v0, done: false}\<close>, ..., \<open>{value: f v(n-1), done: false}\<close> in the order of the
  source, followed by the source's result \<open>{value: r, done: true}\<close> unchanged; the source has
  been asked \<open>n + 1\<close> times for its next value and nothing else.
\<close>

theorem mapAsyncIterator_maps_in_order:
  "yields iterator s vs r \<Longrightarrow> \<forall>v\<in>set vs. callback v = Fulfilled (f v) \<Longrightarrow>
     fst (consume (mapAsyncIterator iterator callback rejectCallback)
            (replicate (Suc (length vs)) DoNext) (s, calls))
       = map (\<lambda>v. Fulfilled (IterValue (f v))) vs @ [Fulfilled (IterDone r)]
     \<and> snd (snd (consume (mapAsyncIterator iterator callback rejectCallback)
            (replicate (Suc (length vs)) DoNext) (s, calls)))
       = calls @ replicate (Suc (length vs)) CallNext"
  by (rule consume_nexts)

lemma list_source_yields: "yields list_source [1, 3] [1, 3] Undefined"
  by (simp add: list_source_def)

theorem mapAsyncIterator_maps_in_order_witness:
  "yields list_source [1, 3] [1, 3] Undefined
   \<and> demo_callback 1 = Fulfilled 2 \<and> demo_callback 3 = Fulfilled 6
   \<and> fst (consume (mapAsyncIterator list_source demo_callback None)
            [DoNext, DoNext, DoNext] ([1, 3], []))
       = [Fulfilled (IterValue 2), Fulfilled (IterValue 6), Fulfilled (IterDone Undefined)]
   \<and> snd (snd (consume (mapAsyncIterator list_source demo_callback None)
            [DoNext, DoNext, DoNext] ([1, 3], [])))
       = [CallNext, CallNext, CallNext]"
proof -
  have cb: "\<forall>v\<in>set [1, 3]. demo_callback v = Fulfilled ((\<lambda>v. 2 * v) v)"
    by (simp add: demo_callback_def)
  have r: "replicate (Suc (length [1::nat, 3])) DoNext = [DoNext, DoNext, DoNext]"
    "replicate (Suc (length [1::nat, 3])) CallNext = [CallNext, CallNext, CallNext]"
    by (simp_all add: numeral_3_eq_3)
  have v: "demo_callback 1 = Fulfilled 2" "demo_callback 3 = Fulfilled 6"
    by (simp_all add: demo_callback_def)
  have m: "map (\<lambda>v. Fulfilled (IterValue (2 * v))) [1::nat, 3]
             @ [Fulfilled (IterDone Undefined)]
           = [Fulfilled (IterValue 2), Fulfilled (IterValue 6),
              (Fulfilled (IterDone Undefined)
                 :: (string, (nat, unit) IteratorResult) settled)]"
    by simp
  note t = mapAsyncIterator_maps_in_order [OF list_source_yields cb, of None "[]",
      unfolded r m append_Nil]
  show ?thesis using t list_source_yields v by blast
qed

text \<open>
  C2, as the code has it. When the source has a \<open>return\<close> method, yields a value \<open>v\<close> and
  the callback throws \<open>error\<close> on it (or returns a promise rejected with it), the promise of
  the mapped iterator's \<open>next()\<close> is rejected with that same error, and during this call the
  source is asked for its next value and then closed, \<open>return\<close> being called exactly once,
  before the rejection is delivered. Nothing is said about the calls that follow: the mapped
  iterator keeps no record of having closed the source.
\<close>

theorem mapped_next_abrupt_close:
  "it_return iterator = Some return' \<Longrightarrow>
   it_next iterator s = (Fulfilled (IterValue v), s1) \<Longrightarrow>
   callback v = Rejected error \<Longrightarrow>
     mapped_next (mapAsyncIterator iterator callback rejectCallback) (s, calls)
       = (Rejected error, (snd (return' s1), calls @ [CallNext, CallReturn]))"
  by (simp add: mapAsyncIterator_def then_map_def call_next_def mapResult_def map_then_def
        asyncMapValue_def abruptClose_def call_return_def split_beta)

theorem mapped_next_abrupt_close_witness:
  "it_return list_source = Some (\<lambda>s. (Fulfilled (IterDone Undefined), []))
   \<and> it_next list_source [2, 3] = (Fulfilled (IterValue 2), [3])
   \<and> demo_callback 2 = Rejected ''boom''
   \<and> mapped_next (mapAsyncIterator list_source demo_callback None) ([2, 3], [])
       = (Rejected ''boom'', ([], [CallNext, CallReturn]))"
  using mapped_next_abrupt_close
          [of list_source "\<lambda>s. (Fulfilled (IterDone Undefined), [])" "[2, 3]" 2 "[3]"
              demo_callback "''boom''" None "[]"]
  by (simp add: list_source_def demo_callback_def)

text \<open>
  C2 as it is written fails in its last part. The source yields \<open>2\<close>, the callback
  throws on it, \<open>next()\<close> is rejected with the error and the source is closed; the consumer
  then calls \<open>return()\<close> on the mapped iterator, which closes the source a second time: over
  this life of the mapped iterator \<open>return\<close> of the source has run twice, not once.
\<close>

theorem close_exactly_once_counterexample:
  "demo_callback 2 = Rejected ''boom''
   \<and> consume (mapAsyncIterator list_source demo_callback None) [DoNext, DoReturn] ([2, 3], [])
       = ([Rejected ''boom'', Fulfilled (IterDone Undefined)],
          ([], [CallNext, CallReturn, CallReturn]))
   \<and> count_list
        (snd (snd (consume (mapAsyncIterator list_source demo_callback None)
                     [DoNext, DoReturn] ([2, 3], []))))
        CallReturn \<noteq> 1"
  by (simp add: mapAsyncIterator_def then_map_def call_next_def mapResult_def map_then_def
        asyncMapValue_def abruptClose_def call_return_def list_source_def demo_callback_def)


section \<open>Properties of getVariableUsages\<close>

subsection \<open>What enter and leave read and write\<close>

lemma enter_leave_schema:
  fixes ti :: "('ty, 'v, 'ev) TypeInfo"
  shows "schema (enter ti n) = schema ti" and "getFieldDefFn (enter ti n) = getFieldDefFn ti"
    and "schema (leave ti n) = schema ti" and "getFieldDefFn (leave ti n) = getFieldDefFn ti"
  by (cases n rule: node_cases[where 'ty='ty and 'v='v and 'ev='ev];
      simp add: enter_defs leave_def)+

lemma enter_leave_directive:
  fixes ti :: "('ty, 'v, 'ev) TypeInfo"
  assumes "node_kind n \<noteq> DIRECTIVE"
  shows "directive (enter ti n) = directive ti" and "directive (leave ti n) = directive ti"
  using assms
  by (cases n rule: node_cases[where 'ty='ty and 'v='v and 'ev='ev];
      simp add: enter_defs leave_def)+

lemma leave_directive_Null:
  "node_kind n = DIRECTIVE \<Longrightarrow> directive (leave ti n) = Null"
  by (simp add: leave_def)

text \<open>Two states with the same five stacks.\<close>

definition same_stacks :: "('ty, 'v, 'ev) TypeInfo \<Rightarrow> ('ty, 'v, 'ev) TypeInfo \<Rightarrow> bool" where
  "same_stacks a b =
    (typeStack a = typeStack b \<and> parentTypeStack a = parentTypeStack b
     \<and> inputTypeStack a = inputTypeStack b \<and> fieldDefStack a = fieldDefStack b
     \<and> defaultValueStack a = defaultValueStack b)"

lemma leave_same_stacks:
  fixes a b :: "('ty, 'v, 'ev) TypeInfo"
  shows "same_stacks a b \<Longrightarrow> same_stacks (leave a n) (leave b n)"
  by (cases n rule: node_cases[where 'ty='ty and 'v='v and 'ev='ev];
      simp add: same_stacks_def leave_def)

lemma leave_enter_same_stacks: "same_stacks (leave (enter ti n) n) ti"
  by (simp add: same_stacks_def leave_enter_stacks)

text \<open>
  Two states that \<open>enter\<close> cannot tell apart: the same schema, field lookup and stacks, and
  the same directive, \<open>null\<close> and \<open>undefined\<close> counting as one (the slots for the argument
  and the enum value are written only).
\<close>

definition nullish :: "'a nullable \<Rightarrow> bool" where
  "nullish x = (case x of Val _ \<Rightarrow> False | _ \<Rightarrow> True)"

definition same_view :: "('ty, 'v, 'ev) TypeInfo \<Rightarrow> ('ty, 'v, 'ev) TypeInfo \<Rightarrow> bool" where
  "same_view a b =
    (schema a = schema b \<and> getFieldDefFn a = getFieldDefFn b \<and> same_stacks a b
     \<and> (directive a = directive b \<or> (nullish (directive a) \<and> nullish (directive b))))"

lemma same_view_accessors:
  "same_view a b \<Longrightarrow> getInputType a = getInputType b \<and> getDefaultValue a = getDefaultValue b"
  by (simp add: same_view_def same_stacks_def getInputType_def getDefaultValue_def)

lemma enter_same_view:
  fixes a b :: "('ty, 'v, 'ev) TypeInfo"
  assumes "same_view a b"
  shows "same_view (enter a n) (enter b n)"
proof (cases n rule: node_cases[where 'ty='ty and 'v='v and 'ev='ev])
  case (Argument arg)
  have "(case TypeInfo_getDirective a of
           Val d \<Rightarrow> Some (dir_args d)
         | _ \<Rightarrow> (case TypeInfo_getFieldDef a of Val f \<Rightarrow> Some (fld_args f) | _ \<Rightarrow> None))
      = (case TypeInfo_getDirective b of
           Val d \<Rightarrow> Some (dir_args d)
         | _ \<Rightarrow> (case TypeInfo_getFieldDef b of Val f \<Rightarrow> Some (fld_args f) | _ \<Rightarrow> None))"
    using assms
    by (auto simp: same_view_def same_stacks_def TypeInfo_getDirective_def
          TypeInfo_getFieldDef_def nullish_def split: nullable.splits)
  then show ?thesis
    using assms Argument
    by (simp add: same_view_def same_stacks_def enter_def enter_Argument_def push_def Let_def)
qed (use assms in \<open>simp_all add: same_view_def same_stacks_def enter_defs getType_def
      getParentType_def getInputType_def
      cong: nullable.case_cong option.case_cong operation_type_node.case_cong if_cong\<close>)

subsection \<open>The nodes below a directive\<close>

text \<open>The kinds of the nodes that occur below a directive or an argument: names, arguments,
  values and object fields. No directive occurs among them.\<close>

definition value_kinds :: "kind set" where
  "value_kinds = {NAME, ARGUMENT, VARIABLE, INT_KIND, FLOAT, STRING, BOOLEAN, NULL, ENUM, LIST,
     OBJECT, OBJECT_FIELD}"

lemma value_kind_in: "value_kind v \<in> value_kinds"
  by (cases v) (simp_all add: value_kinds_def)

lemma value_kinds_members:
  "NAME \<in> value_kinds" "ARGUMENT \<in> value_kinds" "OBJECT_FIELD \<in> value_kinds"
  "VARIABLE \<in> value_kinds" "DIRECTIVE \<notin> value_kinds"
  "VARIABLE_DEFINITION \<notin> value_kinds"
  by (simp_all add: value_kinds_def)

lemma value_kinds_children:
  "node_kind n \<in> value_kinds \<or> node_kind n = DIRECTIVE \<Longrightarrow> c \<in> set (children n) \<Longrightarrow>
     node_kind c \<in> value_kinds"
proof (cases n)
  case (DefinitionN d)
  assume "node_kind n \<in> value_kinds \<or> node_kind n = DIRECTIVE"
  then show ?thesis using DefinitionN by (cases d) (simp_all add: value_kinds_def)
next
  case (SelectionN s)
  assume "node_kind n \<in> value_kinds \<or> node_kind n = DIRECTIVE"
  then show ?thesis using SelectionN by (cases s) (simp_all add: value_kinds_def)
next
  case (ValueN v)
  assume "c \<in> set (children n)"
  then show ?thesis using ValueN
    by (cases v rule: value_children.cases) (auto simp: value_kind_in value_kinds_members)
next
  case (TypeN t)
  assume "node_kind n \<in> value_kinds \<or> node_kind n = DIRECTIVE"
  then show ?thesis using TypeN by (cases t) (simp_all add: value_kinds_def)
next
  case (TypeSystemPartN p)
  assume "c \<in> set (children n)"
  then show ?thesis using TypeSystemPartN by simp
next
  case (ArgumentN a)
  assume "c \<in> set (children n)"
  then show ?thesis using ArgumentN
    by (cases a) (auto simp: value_kind_in value_kinds_members)
next
  case (ObjectFieldN f)
  assume "c \<in> set (children n)"
  then show ?thesis using ObjectFieldN
    by (cases f) (auto simp: value_kind_in value_kinds_members)
next
  case (DirectiveN d)
  assume "c \<in> set (children n)"
  then show ?thesis using DirectiveN by (cases d) (auto simp: value_kinds_members)
qed (simp_all add: value_kinds_def)

lemma variable_kind: "node_kind n = VARIABLE \<longleftrightarrow> variable_of n \<noteq> None"
proof (cases n)
  case (DefinitionN d)
  then show ?thesis by (cases d) simp_all
next
  case (SelectionN s)
  then show ?thesis by (cases s) simp_all
next
  case (ValueN v)
  then show ?thesis by (cases v) simp_all
next
  case (TypeN t)
  then show ?thesis by (cases t) simp_all
next
  case (TypeSystemPartN p)
  then show ?thesis by (cases p) simp_all
qed simp_all

subsection \<open>The records do not depend on what enter cannot tell apart\<close>

lemma usages_at_same_view:
  "same_view a b \<Longrightarrow> usages_at a n = usages_at b n"
proof (induction "node_weight n" arbitrary: n a b rule: less_induct)
  case less
  have ev: "same_view (enter a n) (enter b n)"
    using less.prems by (rule enter_same_view)
  have "usages_at (enter a n) c = usages_at (enter b n) c" if "c \<in> set (children n)" for c
    using less.hyps [OF child_weight [OF that] ev] .
  then have m: "map (usages_at (enter a n)) (children n)
                = map (usages_at (enter b n)) (children n)"
    by simp
  show ?case
    by (subst usages_at.simps [of a n], subst usages_at.simps [of b n])
       (simp add: m same_view_accessors [OF ev] cong: option.case_cong)
qed

subsection \<open>The walk of getVariableUsages\<close>

lemma wrapper_enter:
  "call_visitor (visitWithTypeInfo usages_visitor) False n (ti, u) =
     (if node_kind n = VARIABLE_DEFINITION then (ResFalse, leave (enter ti n) n, u)
      else (ResUndefined, enter ti n,
            u @ (case variable_of n of
                   Some v \<Rightarrow>
                     [\<lparr> usage_node = v,
                        usage_type = getInputType (enter ti n),
                        usage_defaultValue = getDefaultValue (enter ti n) \<rparr>]
                 | None \<Rightarrow> [])))"
  using variable_kind [of n]
  by (auto simp: call_visitor_def visitWithTypeInfo_def visitWithTypeInfo_enter_def
        usages_visitor_def isNode_def push_def Let_def split: option.splits)

lemma wrapper_leave:
  "call_visitor (visitWithTypeInfo usages_visitor) True n (ti, u)
   = (ResUndefined, leave ti n, u)"
  by (simp add: call_visitor_def visitWithTypeInfo_def visitWithTypeInfo_leave_def
        usages_visitor_def)

text \<open>
  How the TypeInfo after the visit of a subtree relates to the one before: the same schema
  and stacks; a directive slot that was empty is empty again; and below a directive the slot
  is as it was.
\<close>

definition after_visit ::
  "bool \<Rightarrow> ('ty, 'v, 'ev) TypeInfo \<Rightarrow> ('ty, 'v, 'ev) TypeInfo \<Rightarrow> bool" where
  "after_visit below ti ti' =
    (schema ti' = schema ti \<and> getFieldDefFn ti' = getFieldDefFn ti \<and> same_stacks ti' ti
     \<and> (nullish (directive ti) \<longrightarrow> nullish (directive ti'))
     \<and> (below \<longrightarrow> directive ti' = directive ti))"

lemma after_visit_same_view:
  "after_visit below ti ti' \<Longrightarrow> nullish (directive ti) \<or> below \<Longrightarrow> same_view ti' ti"
  by (auto simp: after_visit_def same_view_def)

lemma visit_nodes_usages:
  fixes ti :: "('ty, 'v, 'ev) TypeInfo"
  assumes step: "\<And>c (ti :: ('ty, 'v, 'ev) TypeInfo) u. c \<in> set ns \<Longrightarrow>
        nullish (directive ti) \<or> node_kind c \<in> value_kinds \<Longrightarrow>
        \<exists>ti'. visit_node (visitWithTypeInfo usages_visitor) c (ti, u)
                = Some (ti', u @ usages_at ti c)
            \<and> after_visit (node_kind c \<in> value_kinds) ti ti'"
    and pre: "nullish (directive ti) \<or> (\<forall>c\<in>set ns. node_kind c \<in> value_kinds)"
  shows "\<exists>ti'. visit_nodes (visitWithTypeInfo usages_visitor) ns (ti, u)
                = Some (ti', u @ concat (map (usages_at ti) ns))
            \<and> after_visit (\<forall>c\<in>set ns. node_kind c \<in> value_kinds) ti ti'"
  using step pre
proof (induction ns arbitrary: ti u)
  case Nil
  show ?case by (simp add: after_visit_def same_stacks_def)
next
  case (Cons c ns)
  have pc: "nullish (directive ti) \<or> node_kind c \<in> value_kinds"
    using Cons.prems(2) by auto
  obtain ti1 where v1: "visit_node (visitWithTypeInfo usages_visitor) c (ti, u)
                = Some (ti1, u @ usages_at ti c)"
    and a1: "after_visit (node_kind c \<in> value_kinds) ti ti1"
    using Cons.prems(1) [of c ti u] pc by auto
  have p1: "nullish (directive ti1) \<or> (\<forall>c\<in>set ns. node_kind c \<in> value_kinds)"
    using Cons.prems(2) a1 by (auto simp: after_visit_def)
  have step': "\<And>c' (ti :: ('ty, 'v, 'ev) TypeInfo) u. c' \<in> set ns \<Longrightarrow>
        nullish (directive ti) \<or> node_kind c' \<in> value_kinds \<Longrightarrow>
        \<exists>ti'. visit_node (visitWithTypeInfo usages_visitor) c' (ti, u)
                = Some (ti', u @ usages_at ti c')
            \<and> after_visit (node_kind c' \<in> value_kinds) ti ti'"
    using Cons.prems(1) by simp
  obtain ti2 where v2: "visit_nodes (visitWithTypeInfo usages_visitor) ns
                  (ti1, u @ usages_at ti c)
                = Some (ti2, (u @ usages_at ti c) @ concat (map (usages_at ti1) ns))"
    and a2: "after_visit (\<forall>c\<in>set ns. node_kind c \<in> value_kinds) ti1 ti2"
    using Cons.IH [OF step' p1, of "u @ usages_at ti c"] by auto
  have sv: "same_view ti1 ti"
    using after_visit_same_view [OF a1 pc] .
  have m: "map (usages_at ti1) ns = map (usages_at ti) ns"
    using usages_at_same_view [OF sv] by simp
  have a: "after_visit (\<forall>c\<in>set (c # ns). node_kind c \<in> value_kinds) ti ti2"
    using a1 a2 by (auto simp: after_visit_def same_stacks_def)
  show ?case using v1 v2 m a by simp
qed

lemma visit_node_usages:
  fixes ti :: "('ty, 'v, 'ev) TypeInfo"
  assumes "nullish (directive ti) \<or> node_kind n \<in> value_kinds"
  shows "\<exists>ti'. visit_node (visitWithTypeInfo usages_visitor) n (ti, u)
                = Some (ti', u @ usages_at ti n)
            \<and> after_visit (node_kind n \<in> value_kinds) ti ti'"
  using assms
proof (induction "node_weight n" arbitrary: n ti u rule: less_induct)
  case less
  let ?W = "visitWithTypeInfo usages_visitor
              :: ('ty, 'v, 'ev, ('ty, 'v) VariableUsage list, unit) visitor"
  show ?case
  proof (cases "node_kind n = VARIABLE_DEFINITION")
    case True
    have "visit_node ?W n (ti, u) = Some (leave (enter ti n) n, u)"
      using True by (subst visit_node.simps) (simp add: wrapper_enter)
    moreover have "usages_at ti n = []"
      using True by (subst usages_at.simps) simp
    moreover have "after_visit (node_kind n \<in> value_kinds) ti (leave (enter ti n) n)"
      using True
      by (simp add: after_visit_def enter_leave_schema leave_enter_same_stacks
            enter_leave_directive value_kinds_members)
    ultimately show ?thesis by simp
  next
    case False
    let ?own = "(case variable_of n of
                   Some v \<Rightarrow>
                     [\<lparr> usage_node = v,
                        usage_type = getInputType (enter ti n),
                        usage_defaultValue = getDefaultValue (enter ti n) \<rparr>]
                 | None \<Rightarrow> [])"
    let ?ti1 = "enter ti n"
    let ?below = "\<forall>c\<in>set (children n). node_kind c \<in> value_kinds"
    have pre1: "nullish (directive ?ti1) \<or> ?below"
    proof (cases "node_kind n = DIRECTIVE")
      case True
      then show ?thesis using value_kinds_children [of n] by blast
    next
      case nd: False
      then have "directive ?ti1 = directive ti" by (rule enter_leave_directive(1))
      then show ?thesis using less.prems value_kinds_children [of n] by auto
    qed
    have step: "\<And>c (ti :: ('ty, 'v, 'ev) TypeInfo) u. c \<in> set (children n) \<Longrightarrow>
        nullish (directive ti) \<or> node_kind c \<in> value_kinds \<Longrightarrow>
        \<exists>ti'. visit_node ?W c (ti, u) = Some (ti', u @ usages_at ti c)
            \<and> after_visit (node_kind c \<in> value_kinds) ti ti'"
      using less.hyps child_weight by blast
    obtain ti2 where v2: "visit_nodes ?W (children n) (?ti1, u @ ?own)
          = Some (ti2, (u @ ?own) @ concat (map (usages_at ?ti1) (children n)))"
      and a2: "after_visit ?below ?ti1 ti2"
      using visit_nodes_usages [OF step pre1, of "u @ ?own"] by auto
    have run: "visit_node ?W n (ti, u)
          = Some (leave ti2 n, (u @ ?own) @ concat (map (usages_at ?ti1) (children n)))"
      using False v2 by (subst visit_node.simps) (simp add: wrapper_enter wrapper_leave)
    have spec: "usages_at ti n = ?own @ concat (map (usages_at ?ti1) (children n))"
      using False by (subst usages_at.simps) simp
    have stacks: "same_stacks (leave ti2 n) ti"
    proof -
      have "same_stacks (leave ti2 n) (leave ?ti1 n)"
        using a2 by (intro leave_same_stacks) (simp add: after_visit_def)
      then show ?thesis
        using leave_enter_same_stacks [of ti n] by (simp add: same_stacks_def)
    qed
    have dir1: "nullish (directive ti) \<longrightarrow> nullish (directive (leave ti2 n))"
    proof (cases "node_kind n = DIRECTIVE")
      case True
      then show ?thesis by (simp add: leave_directive_Null nullish_def)
    next
      case nd: False
      then show ?thesis
        using a2 enter_leave_directive(1) [OF nd, of ti] enter_leave_directive(2) [OF nd, of ti2]
        by (simp add: after_visit_def)
    qed
    have dir2: "node_kind n \<in> value_kinds \<longrightarrow> directive (leave ti2 n) = directive ti"
    proof
      assume k: "node_kind n \<in> value_kinds"
      then have nd: "node_kind n \<noteq> DIRECTIVE" using value_kinds_members by auto
      have "?below" using k value_kinds_children [of n] by blast
      then show "directive (leave ti2 n) = directive ti"
        using a2 enter_leave_directive(1) [OF nd, of ti] enter_leave_directive(2) [OF nd, of ti2]
        by (simp add: after_visit_def)
    qed
    have "after_visit (node_kind n \<in> value_kinds) ti (leave ti2 n)"
      using a2 stacks dir1 dir2 by (simp add: after_visit_def enter_leave_schema)
    then show ?thesis using run spec by simp
  qed
qed

lemma usages_at_nodes: "map usage_node (usages_at ti n) = variables_under n"
proof (induction "node_weight n" arbitrary: n ti rule: less_induct)
  case less
  have "map usage_node (usages_at (enter ti n) c) = variables_under c"
    if "c \<in> set (children n)" for c
    using less.hyps [OF child_weight [OF that]] .
  then have m: "map (\<lambda>c. map usage_node (usages_at (enter ti n) c)) (children n)
                = map variables_under (children n)"
    by simp
  show ?case
    by (subst usages_at.simps, subst variables_under.simps)
       (simp add: map_concat comp_def m split: option.splits)
qed

lemma new_TypeInfo_directive: "nullish (directive (new_TypeInfo sch f t))"
  by (simp add: new_TypeInfo_def nullish_def)

text \<open>
  C7. In a context whose cache holds what the method puts there (the new context is one, and
  the method keeps it so), \<open>getVariableUsages(n)\<close> returns, for an operation or fragment
  definition \<open>n\<close>, one record for each \<open>Variable\<close> node under \<open>n\<close> that is not inside a
  variable definition, in the order of the document; the type and the default value of a
  record are the input type and the default value of a new TypeInfo that has entered the
  nodes from \<open>n\<close> down to the variable; and a second call with the same node returns the same
  sequence and leaves the context as it is.
\<close>

theorem getVariableUsages_records:
  "variableUsages_ok ctx \<Longrightarrow>
     (\<exists>ctx'. getVariableUsages ctx n
               = Some (usages_at (new_TypeInfo (ctx_schema ctx) None None) (ast_node_of n), ctx')
            \<and> variableUsages_ok ctx'
            \<and> getVariableUsages ctx' n
               = Some (usages_at (new_TypeInfo (ctx_schema ctx) None None) (ast_node_of n),
                       ctx'))
     \<and> map usage_node (usages_at (new_TypeInfo (ctx_schema ctx) None None) (ast_node_of n))
         = variables_under (ast_node_of n)"
proof -
  assume ok: "variableUsages_ok ctx"
  let ?ti = "new_TypeInfo (ctx_schema ctx) None None"
  let ?us = "usages_at ?ti (ast_node_of n)"
  have "\<exists>ctx'. getVariableUsages ctx n = Some (?us, ctx') \<and> variableUsages_ok ctx'
            \<and> getVariableUsages ctx' n = Some (?us, ctx')"
  proof (cases "variableUsages ctx n")
    case (Some usages)
    then have "usages = ?us" using ok by (simp add: variableUsages_ok_def)
    then show ?thesis using Some ok by (simp add: getVariableUsages_def)
  next
    case None
    obtain ti' where v: "visit_node (visitWithTypeInfo usages_visitor) (ast_node_of n) (?ti, [])
                         = Some (ti', [] @ ?us)"
      using visit_node_usages [of ?ti "ast_node_of n" "[]"] new_TypeInfo_directive by blast
    let ?ctx' = "ctx\<lparr>variableUsages := (variableUsages ctx)(n \<mapsto> ?us)\<rparr>"
    have "getVariableUsages ctx n = Some (?us, ?ctx')"
      using None v by (simp add: getVariableUsages_def)
    moreover have "variableUsages_ok ?ctx'"
      using ok by (simp add: variableUsages_ok_def)
    moreover have "getVariableUsages ?ctx' n = Some (?us, ?ctx')"
      by (simp add: getVariableUsages_def)
    ultimately show ?thesis by blast
  qed
  then show ?thesis using usages_at_nodes by blast
qed

theorem getVariableUsages_records_witness:
  "variableUsages_ok
     (new_ValidationContext demo_schema demo_document (new_TypeInfo demo_schema None None))
   \<and> map_option fst
        (getVariableUsages
           (new_ValidationContext demo_schema demo_document (new_TypeInfo demo_schema None None))
           (OperationNS demo_query))
       = Some [\<lparr> usage_node = Variable (Name ''y''), usage_type = Val DemoS,
                   usage_defaultValue = Undefined \<rparr>]
   \<and> variables_under (DefinitionN (OperationDefinitionD demo_query)) = [Variable (Name ''y'')]"
proof -
  let ?ctx = "new_ValidationContext demo_schema demo_document
                (new_TypeInfo demo_schema None None)"
  have ok: "variableUsages_ok ?ctx"
    by (simp add: variableUsages_ok_def new_ValidationContext_def)
  have sch: "ctx_schema ?ctx = demo_schema"
    by (simp add: new_ValidationContext_def)
  have us: "usages_at (new_TypeInfo demo_schema None None)
              (DefinitionN (OperationDefinitionD demo_query))
            = [\<lparr> usage_node = Variable (Name ''y''), usage_type = Val DemoS,
                  usage_defaultValue = Undefined \<rparr>]"
    by (simp add: usages_at.simps demo_query_def demo_variable_y_def opt_node_def
          new_TypeInfo_def enter_defs getType_def getParentType_def getInputType_def
          getDefaultValue_def TypeInfo_getDirective_def TypeInfo_getFieldDef_def
          getFieldDef_def find_arg_def keep_if_def if_truthy_def demo_schema_def)
  have vs: "variables_under (DefinitionN (OperationDefinitionD demo_query))
            = [Variable (Name ''y'')]"
    by (simp add: variables_under.simps demo_query_def demo_variable_y_def opt_node_def)
  show ?thesis
    using getVariableUsages_records [OF ok, of "OperationNS demo_query"] ok us vs
    unfolding sch by (auto simp: ast_node_of_def)
qed

end
